theory Spec2Isabelle
  imports Main
begin

section \<open>Python string primitives used by ged2dot\<close>

text \<open>
  Text is a \<^typ>\<open>string\<close>. The program reads bytes and decodes them as UTF-8; here a
  decoded line is represented by the same characters as its bytes, which is exact for
  ASCII input. The only character outside ASCII that the program inspects is the
  byte-order mark U+FEFF, represented by its three UTF-8 bytes.
\<close>

datatype error = ValueError | AssertionError | KeyError

definition bytes_space :: "char \<Rightarrow> bool" where
  \<comment> \<open>the characters removed by \<^verbatim>\<open>bytes.strip()\<close>\<close>
  "bytes_space c = (c \<in> set [CHR 0x20, CHR 0x09, CHR 0x0A, CHR 0x0D, CHR 0x0B, CHR 0x0C])"

definition str_space :: "char \<Rightarrow> bool" where
  \<comment> \<open>the ASCII characters removed by \<^verbatim>\<open>str.strip()\<close>\<close>
  "str_space c = (c \<in> set [CHR 0x20, CHR 0x09, CHR 0x0A, CHR 0x0D, CHR 0x0B, CHR 0x0C,
                            CHR 0x1C, CHR 0x1D, CHR 0x1E, CHR 0x1F])"

definition strip_with :: "(char \<Rightarrow> bool) \<Rightarrow> string \<Rightarrow> string" where
  "strip_with sp s = rev (dropWhile sp (rev (dropWhile sp s)))"

definition bytes_strip :: "string \<Rightarrow> string" where
  "bytes_strip = strip_with bytes_space"

definition str_strip :: "string \<Rightarrow> string" where
  "str_strip = strip_with str_space"

fun split_char :: "char \<Rightarrow> string \<Rightarrow> string list" where
  \<comment> \<open>\<^verbatim>\<open>s.split(c)\<close> for a one-character separator\<close>
  "split_char c [] = [[]]"
| "split_char c (x # xs) =
     (if x = c then [] # split_char c xs
      else (case split_char c xs of [] \<Rightarrow> [[x]] | t # ts \<Rightarrow> (x # t) # ts))"

fun split_crlf :: "string \<Rightarrow> string list" where
  \<comment> \<open>\<^verbatim>\<open>b.split(b"\r\n")\<close>\<close>
  "split_crlf [] = [[]]"
| "split_crlf [a] = [[a]]"
| "split_crlf (a # b # xs) =
     (if a = CHR 0x0D \<and> b = CHR 0x0A then [] # split_crlf xs
      else (case split_crlf (b # xs) of [] \<Rightarrow> [[a]] | t # ts \<Rightarrow> (a # t) # ts))"

fun join_char :: "char \<Rightarrow> string list \<Rightarrow> string" where
  \<comment> \<open>\<^verbatim>\<open>c.join(ts)\<close>\<close>
  "join_char c [] = []"
| "join_char c [t] = t"
| "join_char c (t # u # ts) = t @ c # join_char c (u # ts)"

definition startswith :: "string \<Rightarrow> string \<Rightarrow> bool" where
  "startswith s p = (take (length p) s = p)"

definition endswith :: "string \<Rightarrow> string \<Rightarrow> bool" where
  "endswith s p = (length p \<le> length s \<and> drop (length s - length p) s = p)"

definition slice_from :: "nat \<Rightarrow> string \<Rightarrow> string" where
  \<comment> \<open>\<^verbatim>\<open>s[a:]\<close>\<close>
  "slice_from a s = drop a s"

definition slice :: "nat \<Rightarrow> nat \<Rightarrow> string \<Rightarrow> string" where
  \<comment> \<open>\<^verbatim>\<open>s[a:-b]\<close> for \<open>b > 0\<close>: a negative stop counts from the end and is clamped at 0\<close>
  "slice a b s = drop a (take (length s - b) s)"

definition digit_of :: "char \<Rightarrow> nat option" where
  "digit_of c = (let n = of_char c :: nat in if 48 \<le> n \<and> n \<le> 57 then Some (n - 48) else None)"

fun parse_digits :: "bool \<Rightarrow> nat \<Rightarrow> string \<Rightarrow> nat option" where
  \<comment> \<open>decimal digits, a single underscore allowed between two digits; the flag says
      that the previous character was a digit\<close>
  "parse_digits prev acc [] = (if prev then Some acc else None)"
| "parse_digits prev acc (c # cs) =
     (case digit_of c of
        Some d \<Rightarrow> parse_digits True (acc * 10 + d) cs
      | None \<Rightarrow> if c = CHR ''_'' \<and> prev then parse_digits False acc cs else None)"

definition py_int :: "string \<Rightarrow> int option" where
  \<comment> \<open>\<^verbatim>\<open>int(s)\<close> on ASCII text; \<open>None\<close> is the ValueError. Around the number
      \<^verbatim>\<open>int\<close> skips space, tab, LF, VT, FF and CR only, the characters of
      \<open>bytes_space\<close>: the separators 0x1C to 0x1F, which \<^verbatim>\<open>str.strip()\<close> removes, are
      no part of a number\<close>
  "py_int s =
     (case strip_with bytes_space s of
        [] \<Rightarrow> None
      | c # cs \<Rightarrow>
          if c = CHR ''+'' then map_option int (parse_digits False 0 cs)
          else if c = CHR ''-'' then map_option (\<lambda>n. - int n) (parse_digits False 0 cs)
          else map_option int (parse_digits False 0 (c # cs)))"

definition BOM :: string where
  "BOM = [CHR 0xEF, CHR 0xBB, CHR 0xBF]"

section \<open>Graph entities\<close>

text \<open>
  A reference to a node object is the position of that object in the graph list: the
  parser creates one object per list entry, so positions and object identities coincide.
\<close>

type_synonym ref = nat

record IndividualConfig =
  config_note :: string
  config_birth :: string
  config_death :: string

record Individual =
  indi_identifier :: string
  famc_id :: string
  famc :: "ref option"
  fams_ids :: "string list"
  fams_list :: "ref list"
  indi_depth :: int
  forename :: string
  surname :: string
  sex :: string
  config :: IndividualConfig

record Family =
  fam_identifier :: string
  wife_id :: string
  wife :: "ref option"
  husb_id :: string
  husb :: "ref option"
  child_ids :: "string list"
  child_list :: "ref list"
  fam_depth :: int

datatype Node = Indi Individual | Fam Family

definition new_IndividualConfig :: IndividualConfig where
  "new_IndividualConfig = \<lparr>config_note = [], config_birth = [], config_death = []\<rparr>"

definition new_Individual :: Individual where
  "new_Individual =
     \<lparr>indi_identifier = [], famc_id = [], famc = None, fams_ids = [], fams_list = [],
      indi_depth = 0, forename = [], surname = [], sex = [], config = new_IndividualConfig\<rparr>"

definition new_Family :: Family where
  "new_Family =
     \<lparr>fam_identifier = [], wife_id = [], wife = None, husb_id = [], husb = None,
      child_ids = [], child_list = [], fam_depth = 0\<rparr>"

fun get_identifier :: "Node \<Rightarrow> string" where
  "get_identifier (Indi i) = indi_identifier i"
| "get_identifier (Fam f) = fam_identifier f"

fun get_depth :: "Node \<Rightarrow> int" where
  "get_depth (Indi i) = indi_depth i"
| "get_depth (Fam f) = fam_depth f"

fun set_depth :: "int \<Rightarrow> Node \<Rightarrow> Node" where
  "set_depth d (Indi i) = Indi (i\<lparr>indi_depth := d\<rparr>)"
| "set_depth d (Fam f) = Fam (f\<lparr>fam_depth := d\<rparr>)"

fun get_neighbours :: "Node \<Rightarrow> ref list" where
  "get_neighbours (Indi i) = (case famc i of None \<Rightarrow> [] | Some r \<Rightarrow> [r]) @ fams_list i"
| "get_neighbours (Fam f) =
     (case wife f of None \<Rightarrow> [] | Some r \<Rightarrow> [r]) @
     (case husb f of None \<Rightarrow> [] | Some r \<Rightarrow> [r]) @ child_list f"

section \<open>The GEDCOM parser\<close>

record GedcomImport =
  individual :: "Individual option"
  family :: "Family option"
  graph :: "Node list"
  in_birt :: bool
  in_deat :: bool

definition new_GedcomImport :: GedcomImport where
  "new_GedcomImport =
     \<lparr>individual = None, family = None, graph = [], in_birt = False, in_deat = False\<rparr>"

definition reset_flags :: "GedcomImport \<Rightarrow> GedcomImport" where
  "reset_flags self =
     (if in_birt self then self\<lparr>in_birt := False\<rparr>
      else if in_deat self then self\<lparr>in_deat := False\<rparr>
      else self)"

definition upd_individual :: "(Individual \<Rightarrow> Individual) \<Rightarrow> GedcomImport \<Rightarrow> GedcomImport" where
  \<comment> \<open>a setter called on \<^verbatim>\<open>self.individual\<close>\<close>
  "upd_individual f self = self\<lparr>individual := map_option f (individual self)\<rparr>"

definition upd_family :: "(Family \<Rightarrow> Family) \<Rightarrow> GedcomImport \<Rightarrow> GedcomImport" where
  \<comment> \<open>a setter called on \<^verbatim>\<open>self.family\<close>\<close>
  "upd_family f self = self\<lparr>family := map_option f (family self)\<rparr>"

definition flush_individual :: "GedcomImport \<Rightarrow> GedcomImport" where
  "flush_individual self =
     (case individual self of
        None \<Rightarrow> self
      | Some i \<Rightarrow> self\<lparr>graph := graph self @ [Indi i], individual := None\<rparr>)"

definition flush_family :: "GedcomImport \<Rightarrow> GedcomImport" where
  "flush_family self =
     (case family self of
        None \<Rightarrow> self
      | Some f \<Rightarrow> self\<lparr>graph := graph self @ [Fam f], family := None\<rparr>)"

definition handle_level0 :: "GedcomImport \<Rightarrow> string \<Rightarrow> GedcomImport" where
  "handle_level0 self0 line =
     (let self = flush_family (flush_individual self0) in
      if startswith line ''@'' \<and> endswith line ''INDI'' then
        self\<lparr>individual := Some (new_Individual\<lparr>indi_identifier := slice 1 6 line\<rparr>)\<rparr>
      else if startswith line ''@'' \<and> endswith line ''FAM'' then
        self\<lparr>family := Some (new_Family\<lparr>fam_identifier := slice 1 5 line\<rparr>)\<rparr>
      else self)"

definition handle_individual_config :: "GedcomImport \<Rightarrow> string \<Rightarrow> GedcomImport" where
  "handle_individual_config self line =
     (let line_lead_token = hd (split_char CHR '' '' line) in
      if line_lead_token = ''BIRT'' then self\<lparr>in_birt := True\<rparr>
      else if line_lead_token = ''DEAT'' then self\<lparr>in_deat := True\<rparr>
      else if line_lead_token = ''NOTE'' \<and> individual self \<noteq> None then
        upd_individual (\<lambda>i. i\<lparr>config := (config i)\<lparr>config_note := slice_from 5 line\<rparr>\<rparr>) self
      else self)"

definition handle_level1 :: "GedcomImport \<Rightarrow> string \<Rightarrow> GedcomImport" where
  "handle_level1 self0 line =
     (let self = reset_flags self0;
          line_lead_token = hd (split_char CHR '' '' line) in
      if line_lead_token = ''SEX'' \<and> individual self \<noteq> None then
        (let tokens = split_char CHR '' '' line in
         if length tokens > 1 then upd_individual (\<lambda>i. i\<lparr>sex := tokens ! 1\<rparr>) self else self)
      else if line_lead_token = ''NAME'' \<and> individual self \<noteq> None then
        (let tokens = split_char CHR ''/'' (slice_from 5 line);
             self1 = upd_individual (\<lambda>i. i\<lparr>forename := str_strip (hd tokens)\<rparr>) self in
         if length tokens > 1
         then upd_individual (\<lambda>i. i\<lparr>surname := str_strip (tokens ! 1)\<rparr>) self1 else self1)
      else if line_lead_token = ''FAMC'' \<and> individual self \<noteq> None then
        upd_individual (\<lambda>i. if famc_id i = [] then i\<lparr>famc_id := slice 6 1 line\<rparr> else i) self
      else if line_lead_token = ''FAMS'' \<and> individual self \<noteq> None then
        upd_individual (\<lambda>i. i\<lparr>fams_ids := fams_ids i @ [slice 6 1 line]\<rparr>) self
      else if line_lead_token = ''HUSB'' \<and> family self \<noteq> None then
        upd_family (\<lambda>f. f\<lparr>husb_id := slice 6 1 line\<rparr>) self
      else if line_lead_token = ''WIFE'' \<and> family self \<noteq> None then
        upd_family (\<lambda>f. f\<lparr>wife_id := slice 6 1 line\<rparr>) self
      else if line_lead_token = ''CHIL'' \<and> family self \<noteq> None then
        upd_family (\<lambda>f. f\<lparr>child_ids := child_ids f @ [slice 6 1 line]\<rparr>) self
      else handle_individual_config self line)"

definition handle_level2 :: "GedcomImport \<Rightarrow> string \<Rightarrow> GedcomImport" where
  \<comment> \<open>the level-2 branch of \<^verbatim>\<open>tokenize_from_stream\<close>\<close>
  "handle_level2 self rest =
     (if startswith rest ''DATE'' \<and> individual self \<noteq> None then
        (let year = last (split_char CHR '' '' rest) in
         if in_birt self then
           upd_individual (\<lambda>i. i\<lparr>config := (config i)\<lparr>config_birth := year\<rparr>\<rparr>) self
         else if in_deat self then
           upd_individual (\<lambda>i. i\<lparr>config := (config i)\<lparr>config_death := year\<rparr>\<rparr>) self
         else self)
      else self)"

definition parse_line :: "string \<Rightarrow> error + (int \<times> string) option" where
  \<comment> \<open>the head of the loop body of \<^verbatim>\<open>tokenize_from_stream\<close>: \<open>None\<close> for a line
      that is skipped, otherwise the level and the rest of the line\<close>
  "parse_line line_bytes =
     (let line = bytes_strip line_bytes in
      if line = [] then Inr None
      else
        (let tokens = split_char CHR '' '' line;
             first_token = hd tokens;
             first_token = (if startswith first_token BOM then drop 3 first_token
                            else first_token) in
         case py_int first_token of
           None \<Rightarrow> Inl ValueError
         | Some level \<Rightarrow> Inr (Some (level, join_char CHR '' '' (tl tokens)))))"

definition process_line :: "GedcomImport \<Rightarrow> string \<Rightarrow> error + GedcomImport" where
  \<comment> \<open>one iteration of the loop of \<^verbatim>\<open>tokenize_from_stream\<close>\<close>
  "process_line self line_bytes =
     (case parse_line line_bytes of
        Inl e \<Rightarrow> Inl e
      | Inr None \<Rightarrow> Inr self
      | Inr (Some (level, rest)) \<Rightarrow>
          if level = 0 then Inr (handle_level0 self rest)
          else if level = 1 then Inr (handle_level1 self rest)
          else if level = 2 then Inr (handle_level2 self rest)
          else Inr self)"

fun tokenize_lines :: "GedcomImport \<Rightarrow> string list \<Rightarrow> error + GedcomImport" where
  "tokenize_lines self [] = Inr self"
| "tokenize_lines self (l # ls) =
     (case process_line self l of Inl e \<Rightarrow> Inl e | Inr self' \<Rightarrow> tokenize_lines self' ls)"

definition tokenize_from_stream :: "GedcomImport \<Rightarrow> string \<Rightarrow> error + Node list" where
  "tokenize_from_stream self stream =
     (case tokenize_lines self (split_crlf stream) of
        Inl e \<Rightarrow> Inl e
      | Inr self' \<Rightarrow> Inr (graph self'))"

section \<open>The resolver\<close>

definition graph_find :: "Node list \<Rightarrow> string \<Rightarrow> error + ref option" where
  \<comment> \<open>the node found is returned as its reference; a failed assertion is an error\<close>
  "graph_find g identifier =
     (if identifier = [] then Inr None
      else
        (let results = filter (\<lambda>r. get_identifier (g ! r) = identifier) [0..<length g] in
         if length results = 1 then Inr (Some (hd results)) else Inl AssertionError))"

fun resolve_ids :: "Node list \<Rightarrow> string list \<Rightarrow> ref list \<Rightarrow> error + ref list" where
  \<comment> \<open>the loop that looks up each id, asserts the result and appends it to the list\<close>
  "resolve_ids g [] acc = Inr acc"
| "resolve_ids g (x # xs) acc =
     (case graph_find g x of
        Inl e \<Rightarrow> Inl e
      | Inr None \<Rightarrow> Inl AssertionError
      | Inr (Some r) \<Rightarrow> resolve_ids g xs (acc @ [r]))"

definition resolve_individual :: "Node list \<Rightarrow> Individual \<Rightarrow> error + Individual" where
  "resolve_individual g self =
     (case graph_find g (famc_id self) of
        Inl e \<Rightarrow> Inl e
      | Inr c \<Rightarrow>
          (case resolve_ids g (fams_ids self) (fams_list self) of
             Inl e \<Rightarrow> Inl e
           | Inr l \<Rightarrow> Inr (self\<lparr>famc := c, fams_list := l\<rparr>)))"

definition resolve_family :: "Node list \<Rightarrow> Family \<Rightarrow> error + Family" where
  "resolve_family g self =
     (case graph_find g (wife_id self) of
        Inl e \<Rightarrow> Inl e
      | Inr w \<Rightarrow>
          (case graph_find g (husb_id self) of
             Inl e \<Rightarrow> Inl e
           | Inr h \<Rightarrow>
               (case resolve_ids g (child_ids self) (child_list self) of
                  Inl e \<Rightarrow> Inl e
                | Inr l \<Rightarrow> Inr (self\<lparr>wife := w, husb := h, child_list := l\<rparr>))))"

fun resolve :: "Node list \<Rightarrow> Node \<Rightarrow> error + Node" where
  "resolve g (Indi i) = map_sum id Indi (resolve_individual g i)"
| "resolve g (Fam f) = map_sum id Fam (resolve_family g f)"

fun resolve_nodes :: "Node list \<Rightarrow> ref list \<Rightarrow> error + Node list" where
  \<comment> \<open>\<^verbatim>\<open>for node in graph: node.resolve(graph)\<close>, each node updated in place\<close>
  "resolve_nodes g [] = Inr g"
| "resolve_nodes g (k # ks) =
     (case resolve g (g ! k) of
        Inl e \<Rightarrow> Inl e
      | Inr n \<Rightarrow> resolve_nodes (g[k := n]) ks)"

definition resolve_all :: "Node list \<Rightarrow> error + Node list" where
  "resolve_all g = resolve_nodes g [0..<length g]"

definition load :: "GedcomImport \<Rightarrow> string \<Rightarrow> error + Node list" where
  "load self stream =
     (case tokenize_from_stream self stream of
        Inl e \<Rightarrow> Inl e
      | Inr g \<Rightarrow> resolve_all g)"

section \<open>The bounded breadth-first traversal\<close>

text \<open>
  A reference held by the program always designates an object of the graph. A position
  outside the list designates no object: it has no neighbours and its depth is not
  stored.
\<close>

definition neighbours_of :: "Node list \<Rightarrow> ref \<Rightarrow> ref list" where
  "neighbours_of g r = (if r < length g then get_neighbours (g ! r) else [])"

definition depth_of :: "Node list \<Rightarrow> ref \<Rightarrow> int" where
  "depth_of g r = (if r < length g then get_depth (g ! r) else 0)"

definition put_depth :: "Node list \<Rightarrow> ref \<Rightarrow> int \<Rightarrow> Node list" where
  "put_depth g r d = (if r < length g then g[r := set_depth d (g ! r)] else g)"

fun visit_neighbours ::
  "ref \<Rightarrow> ref list \<Rightarrow> Node list \<times> ref list \<times> ref list \<Rightarrow> Node list \<times> ref list \<times> ref list" where
  \<comment> \<open>the inner loop over the neighbours of the dequeued node\<close>
  "visit_neighbours node [] st = st"
| "visit_neighbours node (neighbour # ns) (g, visited, queue) =
     (if neighbour \<notin> set visited then
        visit_neighbours node ns
          (put_depth g neighbour (depth_of g node + 1), visited @ [neighbour], queue @ [neighbour])
      else visit_neighbours node ns (g, visited, queue))"

definition all_refs :: "Node list \<Rightarrow> ref set" where
  "all_refs g = (\<Union>n \<in> set g. set (get_neighbours n))"

function bfs_loop ::
  "int \<Rightarrow> Node list \<Rightarrow> ref list \<Rightarrow> ref list \<Rightarrow> ref list \<Rightarrow> ref list \<times> Node list" where
  "bfs_loop family_depth g visited [] ret = (ret, g)"
| "bfs_loop family_depth g visited (node # queue) ret =
     (if depth_of g node > family_depth * 2 + 1 then (ret, g)
      else
        (case visit_neighbours node (neighbours_of g node) (g, visited, queue) of
           (g', visited', queue') \<Rightarrow> bfs_loop family_depth g' visited' queue' (ret @ [node])))"
  by pat_completeness auto

lemma get_neighbours_set_depth: "get_neighbours (set_depth d n) = get_neighbours n"
  by (cases n) simp_all

lemma all_refs_put_depth: "all_refs (put_depth g r d) = all_refs g"
proof -
  have "map get_neighbours (put_depth g r d) = map get_neighbours g"
    by (simp add: put_depth_def map_update get_neighbours_set_depth list_update_same_conv)
  then have "set (map get_neighbours (put_depth g r d)) = set (map get_neighbours g)"
    by simp
  then show ?thesis
    unfolding all_refs_def by (metis (no_types) image_image list.set_map)
qed

lemma finite_all_refs: "finite (all_refs g)"
  by (simp add: all_refs_def)

lemma neighbours_of_all_refs: "set (neighbours_of g r) \<subseteq> all_refs g"
  using nth_mem by (fastforce simp: neighbours_of_def all_refs_def)

lemma visit_neighbours_measure:
  "set ns \<subseteq> R \<Longrightarrow> finite R \<Longrightarrow> visit_neighbours node ns (g, v, q) = (g', v', q') \<Longrightarrow>
   all_refs g' = all_refs g \<and> card (R - set v') + length q' = card (R - set v) + length q"
proof (induction ns arbitrary: g v q)
  case Nil
  then show ?case by simp
next
  case (Cons x ns)
  show ?case
  proof (cases "x \<in> set v")
    case True
    with Cons show ?thesis by simp
  next
    case False
    from Cons.prems False have step:
      "visit_neighbours node ns (put_depth g x (depth_of g node + 1), v @ [x], q @ [x]) = (g', v', q')"
      by simp
    from Cons.prems have ns: "set ns \<subseteq> R" and x: "x \<in> R" by simp_all
    from Cons.IH [OF ns Cons.prems(2) step]
    have a: "all_refs g' = all_refs (put_depth g x (depth_of g node + 1))"
      and b: "card (R - set v') + length q' = card (R - set (v @ [x])) + length (q @ [x])"
      by simp_all
    have "R - set (v @ [x]) = (R - set v) - {x}" by auto
    moreover have "x \<in> R - set v" using x False by simp
    moreover have "finite (R - set v)" using Cons.prems(2) by simp
    ultimately have "card (R - set (v @ [x])) + 1 = card (R - set v)"
      by (metis One_nat_def Suc_pred add.right_neutral add_Suc_right card_Diff_singleton card_gt_0_iff empty_iff)
    with a b show ?thesis by (simp add: all_refs_put_depth)
  qed
qed

lemma visit_neighbours_decr:
  assumes "visit_neighbours node (neighbours_of g node) (g, v, q) = (g', v', q')"
  shows "card (all_refs g' - set v') + length q' = card (all_refs g - set v) + length q"
  using visit_neighbours_measure [where R = "all_refs g", OF neighbours_of_all_refs finite_all_refs assms]
  by simp

termination bfs_loop
proof (relation "measure (\<lambda>(fd, g, v, q, r). card (all_refs g - set v) + length q)")
  show "wf (measure (\<lambda>(fd, g, v, q, r). card (all_refs g - set v) + length q))"
    by simp
next
  fix family_depth :: int and g :: "Node list" and visited :: "ref list" and node queue
    and ret :: "ref list"
    and x y xa ya
  assume "(x, y) = visit_neighbours node (neighbours_of g node) (g, visited, queue)"
    and "(xa, ya) = y"
  then have "visit_neighbours node (neighbours_of g node) (g, visited, queue) = (x, xa, ya)"
    by simp
  from visit_neighbours_decr [OF this]
  show "((family_depth, x, xa, ya, ret @ [node]), family_depth, g, visited, node # queue, ret)
        \<in> measure (\<lambda>(fd, g, v, q, r). card (all_refs g - set v) + length q)"
    by simp
qed

definition bfs :: "Node list \<Rightarrow> ref \<Rightarrow> (string \<rightharpoonup> string) \<Rightarrow> error + ref list \<times> Node list" where
  \<comment> \<open>the queue starts with the root, so \<^verbatim>\<open>int(config["familydepth"])\<close> is always
      evaluated; the result is the traversed references and the graph with its depths\<close>
  "bfs g root cfg =
     (case cfg ''familydepth'' of
        None \<Rightarrow> Inl KeyError
      | Some fd \<Rightarrow>
          (case py_int fd of
             None \<Rightarrow> Inl ValueError
           | Some family_depth \<Rightarrow> Inr (bfs_loop family_depth g [root] [root] [])))"

section \<open>The dot serializer\<close>

definition identifier_of :: "Node list \<Rightarrow> ref \<Rightarrow> string" where
  "identifier_of g r = (if r < length g then get_identifier (g ! r) else [])"

definition edge :: "string \<Rightarrow> string \<Rightarrow> string" where
  "edge a b = a @ '' -> '' @ b @ '' [dir=none];'' @ [CHR 0x0A]"

definition family_edges :: "Node list \<Rightarrow> Family \<Rightarrow> string list" where
  \<comment> \<open>the writes of \<^verbatim>\<open>__store_edges\<close> for one family\<close>
  "family_edges g fam =
     (case wife fam of None \<Rightarrow> [] | Some w \<Rightarrow> [edge (identifier_of g w) (fam_identifier fam)]) @
     (case husb fam of None \<Rightarrow> [] | Some h \<Rightarrow> [edge (identifier_of g h) (fam_identifier fam)]) @
     map (\<lambda>child. edge (fam_identifier fam) (identifier_of g child)) (child_list fam)"

fun store_edges :: "Node list \<Rightarrow> ref list \<Rightarrow> string list" where
  \<comment> \<open>the writes of \<^verbatim>\<open>__store_edges\<close>, in order\<close>
  "store_edges g [] = []"
| "store_edges g (node # subgraph) =
     (if node < length g then
        (case g ! node of Indi _ \<Rightarrow> [] | Fam fam \<Rightarrow> family_edges g fam)
      else []) @ store_edges g subgraph"

definition ascii_upper :: "char \<Rightarrow> char" where
  "ascii_upper c = (let n = of_char c :: nat in if 97 \<le> n \<and> n \<le> 122 then char_of (n - 32) else c)"

definition ascii_lower :: "char \<Rightarrow> char" where
  "ascii_lower c = (let n = of_char c :: nat in if 65 \<le> n \<and> n \<le> 90 then char_of (n + 32) else c)"

definition path_join :: "string \<Rightarrow> string \<Rightarrow> string" where
  \<comment> \<open>\<^verbatim>\<open>os.path.join(a, b)\<close> on POSIX\<close>
  "path_join a b =
     (if startswith b ''/'' then b
      else if a = [] \<or> endswith a ''/'' then a @ b
      else a @ ''/'' @ b)"

definition get_abspath :: "string \<Rightarrow> string \<Rightarrow> string" where
  \<comment> \<open>\<open>install_dir\<close> is the directory of the program's own file\<close>
  "get_abspath install_dir path =
     (if startswith path ''/'' then path else path_join install_dir path)"

definition get_label ::
  "(string \<Rightarrow> bool) \<Rightarrow> string \<Rightarrow> Individual \<Rightarrow> string \<Rightarrow> string \<Rightarrow> string" where
  \<comment> \<open>\<open>file_exists\<close> is \<^verbatim>\<open>os.path.exists\<close>, a fact of the environment\<close>
  "get_label file_exists install_dir self image_dir name_order =
     (let image_path = path_join image_dir (forename self @ '' '' @ surname self);
          image_path = image_path @ '' '' @ config_birth (config self) @ ''.jpg'';
          image_path =
            (if \<not> file_exists image_path then
               (let sx = (if sex self \<noteq> [] then map ascii_lower (sex self) else ''u'')
                in get_abspath install_dir (''placeholder-'' @ sx @ ''.png''))
             else image_path);
          label = ''<table border='' @ [CHR 0x22] @ ''0'' @ [CHR 0x22] @ '' cellborder=''
                  @ [CHR 0x22] @ ''0'' @ [CHR 0x22] @ ''><tr><td>'';
          label = label @ ''<img src='' @ [CHR 0x22] @ image_path @ [CHR 0x22] @ ''/>'';
          label = label @ ''</td></tr><tr><td>'';
          label =
            (if name_order = ''big''
             then label @ surname self @ ''<br/>'' @ forename self @ ''<br/>''
             else label @ forename self @ ''<br/>'' @ surname self @ ''<br/>'');
          label = label @ config_birth (config self) @ ''-'' @ config_death (config self);
          label = label @ ''</td></tr></table>''
      in label)"

definition get_color :: "Individual \<Rightarrow> error + string" where
  "get_color self =
     (let sx = (if sex self = [] then ''U'' else map ascii_upper (sex self)) in
      case map_of [(''M'', ''blue''), (''F'', ''pink''), (''U'', ''black'')] sx of
        None \<Rightarrow> Inl KeyError
      | Some color \<Rightarrow> Inr color)"

section \<open>Notions used in the statements\<close>

definition pending :: "GedcomImport \<Rightarrow> Node list" where
  \<comment> \<open>the entities in progress, in the order in which a level-0 line appends them\<close>
  "pending self =
     (case individual self of None \<Rightarrow> [] | Some i \<Rightarrow> [Indi i]) @
     (case family self of None \<Rightarrow> [] | Some f \<Rightarrow> [Fam f])"

definition starts_entity :: "string \<Rightarrow> string option" where
  \<comment> \<open>the identifier of the record that the rest of a level-0 line opens, if any\<close>
  "starts_entity rest =
     (if startswith rest ''@'' \<and> endswith rest ''INDI'' then Some (slice 1 6 rest)
      else if startswith rest ''@'' \<and> endswith rest ''FAM'' then Some (slice 1 5 rest)
      else None)"

definition record_id :: "string \<Rightarrow> string list" where
  "record_id line_bytes =
     (case parse_line line_bytes of
        Inr (Some (level, rest)) \<Rightarrow>
          (if level = 0 then (case starts_entity rest of None \<Rightarrow> [] | Some i \<Rightarrow> [i]) else [])
      | _ \<Rightarrow> [])"

definition record_ids :: "string list \<Rightarrow> string list" where
  \<comment> \<open>the identifiers of the INDI and FAM records of the input, in input order\<close>
  "record_ids ls = concat (map record_id ls)"

definition is_level0 :: "string \<Rightarrow> bool" where
  "is_level0 line_bytes = (case parse_line line_bytes of Inr (Some (level, rest)) \<Rightarrow> level = 0 | _ \<Rightarrow> False)"

definition same_entity :: "GedcomImport \<Rightarrow> GedcomImport \<Rightarrow> bool" where
  \<comment> \<open>the graph and the identifiers of the entities in progress are unchanged\<close>
  "same_entity s s' =
     (graph s' = graph s \<and>
      map_option indi_identifier (individual s') = map_option indi_identifier (individual s) \<and>
      map_option fam_identifier (family s') = map_option fam_identifier (family s))"

definition current_note :: "GedcomImport \<Rightarrow> string option" where
  \<comment> \<open>the note of the individual in progress\<close>
  "current_note self = map_option (\<lambda>i. config_note (config i)) (individual self)"

fun single_refs :: "Node \<Rightarrow> ref option list" where
  \<comment> \<open>the single-valued resolved references of an entity\<close>
  "single_refs (Indi i) = [famc i]"
| "single_refs (Fam f) = [wife f, husb f]"

fun list_refs :: "Node \<Rightarrow> ref list" where
  \<comment> \<open>the list-valued resolved references of an entity\<close>
  "list_refs (Indi i) = fams_list i"
| "list_refs (Fam f) = child_list f"

fun fresh :: "ref list \<Rightarrow> ref list \<Rightarrow> ref list" where
  \<comment> \<open>the neighbours not yet visited, in order, each once\<close>
  "fresh [] v = []"
| "fresh (x # ns) v = (if x \<in> set v then fresh ns v else x # fresh ns (v @ [x]))"

definition found_in :: "Node list \<Rightarrow> ref \<Rightarrow> bool" where
  \<comment> \<open>a reference to the only node of the graph with its identifier\<close>
  "found_in g r \<longleftrightarrow>
     r < length g \<and> (\<forall>k<length g. get_identifier (g ! k) = get_identifier (g ! r) \<longrightarrow> k = r)"

definition unlinked :: "Node \<Rightarrow> bool" where
  \<comment> \<open>an entity as the parser builds it: no resolved reference, depth 0\<close>
  "unlinked n \<longleftrightarrow> get_neighbours n = [] \<and> get_depth n = 0"

definition unlinked_state :: "GedcomImport \<Rightarrow> bool" where
  "unlinked_state s \<longleftrightarrow> (\<forall>n \<in> set (graph s @ pending s). unlinked n)"

fun is_family :: "Node \<Rightarrow> bool" where
  \<comment> \<open>\<^verbatim>\<open>isinstance(node, Family)\<close>\<close>
  "is_family (Fam f) = True"
| "is_family (Indi i) = False"





section \<open>Example inputs\<close>

definition example_lines :: "string list" where
  "example_lines =
     [''0 HEAD'', ''0 @P1@ INDI'', ''1 NAME Alice /A/'', ''1 SEX F'', ''1 BIRT'',
      ''2 DATE 1 JAN 1980'', ''1 DEAT'', ''1 FAMS @F1@'', ''0 @F1@ FAM'', ''1 WIFE @P1@'',
      ''0 TRLR'']"

definition alice :: Individual where
  "alice = new_Individual\<lparr>indi_identifier := ''P1'', forename := ''Alice'', surname := ''A'',
     sex := ''F'', config := new_IndividualConfig\<lparr>config_birth := ''1980''\<rparr>\<rparr>"

definition state_after_deat :: GedcomImport where
  \<comment> \<open>the parser after the first seven lines of \<open>example_lines\<close>\<close>
  "state_after_deat =
     \<lparr>individual = Some alice, family = None, graph = [], in_birt = False, in_deat = True\<rparr>"

definition state_after_fams :: GedcomImport where
  \<comment> \<open>the parser after the first eight lines of \<open>example_lines\<close>\<close>
  "state_after_fams =
     \<lparr>individual = Some (alice\<lparr>fams_ids := [''F1'']\<rparr>), family = None, graph = [],
      in_birt = False, in_deat = False\<rparr>"

definition state_after_fam :: GedcomImport where
  \<comment> \<open>the parser after the first nine lines of \<open>example_lines\<close>\<close>
  "state_after_fam =
     \<lparr>individual = None, family = Some (new_Family\<lparr>fam_identifier := ''F1''\<rparr>),
      graph = [Indi (alice\<lparr>fams_ids := [''F1'']\<rparr>)], in_birt = False, in_deat = False\<rparr>"

definition lone_record_stream :: string where
  \<comment> \<open>one INDI record and no further level-0 line\<close>
  "lone_record_stream = ''0 @P1@ INDI'' @ [CHR 0x0D, CHR 0x0A] @ ''1 NAME Alice /A/''"

definition state_lone_record :: GedcomImport where
  "state_lone_record =
     \<lparr>individual = Some (new_Individual\<lparr>indi_identifier := ''P1'', forename := ''Alice'',
        surname := ''A''\<rparr>),
      family = None, graph = [], in_birt = False, in_deat = False\<rparr>"

definition crlf_lines :: "string list \<Rightarrow> string" where
  \<comment> \<open>a stream of CRLF-terminated lines\<close>
  "crlf_lines ls = concat (map (\<lambda>l. l @ [CHR 0x0D, CHR 0x0A]) ls)"

definition family_stream :: string where
  "family_stream = crlf_lines
     [''0 HEAD'',
      ''0 @P1@ INDI'', ''1 NAME Alice /A/'', ''1 SEX F'', ''1 FAMS @F1@'',
      ''0 @P2@ INDI'', ''1 NAME Bob /B/'', ''1 SEX M'', ''1 FAMS @F1@'',
      ''0 @P3@ INDI'', ''1 NAME Carol /B/'', ''1 SEX F'', ''1 FAMC @F1@'', ''1 FAMS @F2@'',
      ''0 @P4@ INDI'', ''1 NAME Dave /B/'', ''1 FAMC @F1@'', ''1 FAMS @F2@'',
      ''0 @F1@ FAM'', ''1 WIFE @P1@'', ''1 HUSB @P2@'', ''1 CHIL @P3@'', ''1 CHIL @P4@'',
      ''0 @F2@ FAM'', ''1 WIFE @P3@'', ''1 HUSB @P4@'',
      ''0 TRLR'']"

definition family_graph :: "Node list" where
  \<comment> \<open>the resolved graph of \<open>family_stream\<close>\<close>
  "family_graph =
     [Indi (new_Individual\<lparr>indi_identifier := ''P1'', fams_ids := [''F1''], fams_list := [4],
        forename := ''Alice'', surname := ''A'', sex := ''F''\<rparr>),
      Indi (new_Individual\<lparr>indi_identifier := ''P2'', fams_ids := [''F1''], fams_list := [4],
        forename := ''Bob'', surname := ''B'', sex := ''M''\<rparr>),
      Indi (new_Individual\<lparr>indi_identifier := ''P3'', famc_id := ''F1'', famc := Some 4,
        fams_ids := [''F2''], fams_list := [5], forename := ''Carol'', surname := ''B'',
        sex := ''F''\<rparr>),
      Indi (new_Individual\<lparr>indi_identifier := ''P4'', famc_id := ''F1'', famc := Some 4,
        fams_ids := [''F2''], fams_list := [5], forename := ''Dave'', surname := ''B''\<rparr>),
      Fam (new_Family\<lparr>fam_identifier := ''F1'', wife_id := ''P1'', wife := Some 0,
        husb_id := ''P2'', husb := Some 1, child_ids := [''P3'', ''P4''],
        child_list := [2, 3]\<rparr>),
      Fam (new_Family\<lparr>fam_identifier := ''F2'', wife_id := ''P3'', wife := Some 2,
        husb_id := ''P4'', husb := Some 3\<rparr>)]"

definition state_p2 :: GedcomImport where
  \<comment> \<open>the parser after the line \<open>0 @P2@ INDI\<close>\<close>
  "state_p2 =
     \<lparr>individual = Some (new_Individual\<lparr>indi_identifier := ''P2''\<rparr>), family = None,
      graph = [], in_birt = False, in_deat = False\<rparr>"

definition three_line_text :: string where
  \<comment> \<open>three lines of text separated by line feeds\<close>
  "three_line_text = ''This is a note with'' @ [CHR 0x0A] @ ''3'' @ [CHR 0x0A] @ ''lines''"

definition nosex :: Individual where
  "nosex = new_Individual\<lparr>indi_identifier := ''P3''\<rparr>"

definition family_f1 :: Family where
  \<comment> \<open>the family F1 of \<open>family_graph\<close>\<close>
  "family_f1 = new_Family\<lparr>fam_identifier := ''F1'', wife_id := ''P1'', wife := Some 0,
     husb_id := ''P2'', husb := Some 1, child_ids := [''P3'', ''P4''], child_list := [2, 3]\<rparr>"

section \<open>The parser's state machine\<close>

subsection \<open>The birth and death flags\<close>

lemma flags_handle_level0:
  "in_birt (handle_level0 s l) = in_birt s \<and> in_deat (handle_level0 s l) = in_deat s"
  by (simp add: handle_level0_def flush_individual_def flush_family_def Let_def
      split: option.splits)

lemma flags_handle_level2:
  "in_birt (handle_level2 s l) = in_birt s \<and> in_deat (handle_level2 s l) = in_deat s"
  by (simp add: handle_level2_def upd_individual_def Let_def)

lemma flags_reset: "\<not> (in_birt s \<and> in_deat s) \<Longrightarrow> \<not> in_birt (reset_flags s) \<and> \<not> in_deat (reset_flags s)"
  by (auto simp: reset_flags_def)

lemma flags_handle_individual_config:
  "\<not> in_birt s \<Longrightarrow> \<not> in_deat s \<Longrightarrow>
   \<not> (in_birt (handle_individual_config s l) \<and> in_deat (handle_individual_config s l))"
  by (simp add: handle_individual_config_def upd_individual_def Let_def)

lemma flags_handle_level1:
  assumes "\<not> (in_birt s \<and> in_deat s)"
  shows "\<not> (in_birt (handle_level1 s l) \<and> in_deat (handle_level1 s l))"
proof -
  from flags_reset [OF assms] have r: "\<not> in_birt (reset_flags s)" "\<not> in_deat (reset_flags s)"
    by simp_all
  show ?thesis
    using r flags_handle_individual_config [OF r, of l]
    by (simp add: handle_level1_def upd_individual_def upd_family_def Let_def)
qed

lemma flags_process_line:
  "\<not> (in_birt s \<and> in_deat s) \<Longrightarrow> process_line s l = Inr s' \<Longrightarrow> \<not> (in_birt s' \<and> in_deat s')"
  using flags_handle_level0 [of s] flags_handle_level1 [of s] flags_handle_level2 [of s]
  by (auto simp: process_line_def split: sum.splits option.splits if_splits)

lemma flags_tokenize_lines:
  "\<not> (in_birt s \<and> in_deat s) \<Longrightarrow> tokenize_lines s ls = Inr s' \<Longrightarrow> \<not> (in_birt s' \<and> in_deat s')"
proof (induction ls arbitrary: s)
  case Nil
  then show ?case by simp
next
  case (Cons l ls)
  from Cons.prems(2) obtain s1 where s1: "process_line s l = Inr s1" and rest: "tokenize_lines s1 ls = Inr s'"
    by (auto split: sum.splits)
  from flags_process_line [OF Cons.prems(1) s1] Cons.IH rest show ?case by auto
qed

text \<open>
  C9. After any prefix of the input lines has been processed, the flags \<open>in_birt\<close> and
  \<open>in_deat\<close> are not both set; a level-1 \<open>BIRT\<close> or \<open>DEAT\<close> line first clears the
  flag that was set and then sets its own.
\<close>

theorem flags_never_both:
  assumes "tokenize_lines new_GedcomImport (take n ls) = Inr s"
  shows "\<not> (in_birt s \<and> in_deat s) \<and>
         (in_birt (handle_level1 s ''BIRT'') \<and> \<not> in_deat (handle_level1 s ''BIRT'')) \<and>
         (\<not> in_birt (handle_level1 s ''DEAT'') \<and> in_deat (handle_level1 s ''DEAT''))"
proof -
  have inv: "\<not> (in_birt s \<and> in_deat s)"
    using flags_tokenize_lines [OF _ assms] by (simp add: new_GedcomImport_def)
  from flags_reset [OF inv] show ?thesis
    using inv by (simp add: handle_level1_def handle_individual_config_def Let_def)
qed

lemma example_lines_deat:
  "tokenize_lines new_GedcomImport (take 7 example_lines) = Inr state_after_deat"
  by code_simp

theorem flags_never_both_witness:
  "tokenize_lines new_GedcomImport (take 7 example_lines) = Inr state_after_deat \<and>
   \<not> (in_birt state_after_deat \<and> in_deat state_after_deat) \<and>
   (in_birt (handle_level1 state_after_deat ''BIRT'') \<and>
    \<not> in_deat (handle_level1 state_after_deat ''BIRT'')) \<and>
   (\<not> in_birt (handle_level1 state_after_deat ''DEAT'') \<and>
    in_deat (handle_level1 state_after_deat ''DEAT''))"
  using flags_never_both [OF example_lines_deat] example_lines_deat by simp

subsection \<open>The entity in progress\<close>

lemma pending_flushed [simp]: "pending (flush_family (flush_individual s)) = []"
  by (simp add: pending_def flush_family_def flush_individual_def split: option.splits)

lemma graph_flushed [simp]: "graph (flush_family (flush_individual s)) = graph s @ pending s"
  by (simp add: pending_def flush_family_def flush_individual_def split: option.splits)

lemma one_handle_level0:
  "individual (handle_level0 s l) = None \<or> family (handle_level0 s l) = None"
  by (simp add: handle_level0_def flush_individual_def flush_family_def Let_def
      split: option.splits)

lemma graph_handle_level0: "graph (handle_level0 s l) = graph s @ pending s"
  using graph_flushed [of s] by (simp add: handle_level0_def Let_def del: graph_flushed)

lemma pending_handle_level0:
  "map get_identifier (pending (handle_level0 s l)) =
     (case starts_entity l of None \<Rightarrow> [] | Some i \<Rightarrow> [i])"
proof -
  let ?t = "flush_family (flush_individual s)"
  have "individual ?t = None" "family ?t = None"
    by (simp_all add: flush_family_def flush_individual_def split: option.splits)
  then show ?thesis
    by (simp add: handle_level0_def starts_entity_def pending_def Let_def)
qed

lemma upd_individual_simps [simp]:
  "individual (upd_individual f s) = map_option f (individual s)"
  "family (upd_individual f s) = family s"
  "graph (upd_individual f s) = graph s"
  by (simp_all add: upd_individual_def)

lemma upd_family_simps [simp]:
  "individual (upd_family f s) = individual s"
  "family (upd_family f s) = map_option f (family s)"
  "graph (upd_family f s) = graph s"
  by (simp_all add: upd_family_def)

lemma reset_flags_simps [simp]:
  "individual (reset_flags s) = individual s"
  "family (reset_flags s) = family s"
  "graph (reset_flags s) = graph s"
  by (simp_all add: reset_flags_def)

lemma same_entity_refl [simp]: "same_entity s s"
  by (simp add: same_entity_def)

lemma same_entity_upd_individual:
  "(\<And>i. indi_identifier (f i) = indi_identifier i) \<Longrightarrow>
   same_entity s (upd_individual f t) = same_entity s t"
  by (simp add: same_entity_def option.map_comp comp_def)

lemma same_entity_upd_family:
  "(\<And>i. fam_identifier (f i) = fam_identifier i) \<Longrightarrow>
   same_entity s (upd_family f t) = same_entity s t"
  by (simp add: same_entity_def option.map_comp comp_def)

lemma same_entity_reset: "same_entity s (reset_flags t) = same_entity s t"
  by (simp add: same_entity_def)

lemma same_entity_handle_individual_config:
  "same_entity s (handle_individual_config t l) = same_entity s t"
  by (simp add: handle_individual_config_def Let_def same_entity_upd_individual)
    (simp add: same_entity_def)

lemma same_entity_handle_level1: "same_entity s (handle_level1 s l)"
  by (simp add: handle_level1_def Let_def same_entity_upd_individual same_entity_upd_family
      same_entity_reset same_entity_handle_individual_config)

lemma same_entity_handle_level2: "same_entity s (handle_level2 s l)"
  by (simp add: handle_level2_def Let_def same_entity_upd_individual)

lemma same_entity_pending:
  "same_entity s s' \<Longrightarrow> map get_identifier (pending s') = map get_identifier (pending s)"
  by (cases "individual s"; cases "individual s'"; cases "family s"; cases "family s'")
    (simp_all add: same_entity_def pending_def)

lemma same_entity_one:
  "same_entity s s' \<Longrightarrow> individual s = None \<or> family s = None \<Longrightarrow>
   individual s' = None \<or> family s' = None"
  by (auto simp: same_entity_def)


lemma process_line_cases:
  assumes "process_line s l = Inr s'"
  shows "(is_level0 l \<and> graph s' = graph s @ pending s \<and>
            map get_identifier (pending s') = record_id l \<and>
            (individual s' = None \<or> family s' = None)) \<or>
         (\<not> is_level0 l \<and> same_entity s s' \<and> record_id l = [])"
proof (cases "parse_line l")
  case (Inl e)
  with assms show ?thesis by (simp add: process_line_def)
next
  case (Inr p)
  show ?thesis
  proof (cases p)
    case None
    with Inr assms show ?thesis
      by (simp add: process_line_def is_level0_def record_id_def)
  next
    case (Some lr)
    obtain level rest where lr: "lr = (level, rest)" by (cases lr)
    consider "level = 0" | "level = 1" | "level = 2" | "level \<noteq> 0" "level \<noteq> 1" "level \<noteq> 2"
      by auto
    then show ?thesis
    proof cases
      case 1
      with Inr Some lr assms have "s' = handle_level0 s rest"
        by (simp add: process_line_def)
      with 1 Inr Some lr show ?thesis
        using one_handle_level0 [of s rest]
        by (simp add: is_level0_def record_id_def graph_handle_level0 pending_handle_level0)
    next
      case 2
      with Inr Some lr assms have "s' = handle_level1 s rest"
        by (simp add: process_line_def)
      with 2 Inr Some lr show ?thesis
        by (simp add: is_level0_def record_id_def same_entity_handle_level1)
    next
      case 3
      with Inr Some lr assms have "s' = handle_level2 s rest"
        by (simp add: process_line_def)
      with 3 Inr Some lr show ?thesis
        by (simp add: is_level0_def record_id_def same_entity_handle_level2)
    next
      case 4
      with Inr Some lr assms have "s' = s"
        by (simp add: process_line_def)
      with 4 Inr Some lr show ?thesis
        by (simp add: is_level0_def record_id_def)
    qed
  qed
qed

lemma one_process_line:
  assumes "individual s = None \<or> family s = None" and "process_line s l = Inr s'"
  shows "individual s' = None \<or> family s' = None"
  using process_line_cases [OF assms(2)] same_entity_one [OF _ assms(1), where s' = s']
  by auto

lemma ids_process_line:
  assumes "process_line s l = Inr s'"
  shows "map get_identifier (graph s' @ pending s') =
         map get_identifier (graph s @ pending s) @ record_id l"
proof -
  from process_line_cases [OF assms] consider
    "graph s' = graph s @ pending s" "map get_identifier (pending s') = record_id l"
    | "same_entity s s'" "record_id l = []"
    by auto
  then show ?thesis
  proof cases
    case 1
    then show ?thesis by simp
  next
    case 2
    with same_entity_pending [OF 2(1)] show ?thesis by (simp add: same_entity_def)
  qed
qed

lemma one_tokenize_lines:
  "individual s = None \<or> family s = None \<Longrightarrow> tokenize_lines s ls = Inr s' \<Longrightarrow>
   individual s' = None \<or> family s' = None"
proof (induction ls arbitrary: s)
  case Nil
  then show ?case by simp
next
  case (Cons l ls)
  from Cons.prems(2) obtain s1 where s1: "process_line s l = Inr s1"
    and rest: "tokenize_lines s1 ls = Inr s'"
    by (auto split: sum.splits)
  from one_process_line [OF Cons.prems(1) s1] Cons.IH rest show ?case by auto
qed

lemma ids_tokenize_lines:
  "tokenize_lines s ls = Inr s' \<Longrightarrow>
   map get_identifier (graph s' @ pending s') =
   map get_identifier (graph s @ pending s) @ record_ids ls"
proof (induction ls arbitrary: s)
  case Nil
  then show ?case by (simp add: record_ids_def)
next
  case (Cons l ls)
  from Cons.prems obtain s1 where s1: "process_line s l = Inr s1"
    and rest: "tokenize_lines s1 ls = Inr s'"
    by (auto split: sum.splits)
  from Cons.IH [OF rest] ids_process_line [OF s1] show ?case
    by (simp add: record_ids_def)
qed

lemma pending_length: "individual s = None \<or> family s = None \<Longrightarrow> length (pending s) \<le> 1"
  by (auto simp: pending_def split: option.splits)


text \<open>
  C10. While the input is tokenized, at most one entity is in progress: the parser's
  \<open>individual\<close> and \<open>family\<close> are never both set. A line appends nothing to the graph or
  exactly the entity in progress, so the graph together with the entity in progress
  holds the records of the input in their order of appearance.
\<close>

theorem one_entity_in_progress:
  assumes "tokenize_lines new_GedcomImport ls = Inr s" and "process_line s l = Inr s'"
  shows "(individual s = None \<or> family s = None) \<and>
         (individual s' = None \<or> family s' = None) \<and>
         length (pending s) \<le> 1 \<and>
         (graph s' = graph s \<or> graph s' = graph s @ pending s) \<and>
         map get_identifier (graph s @ pending s) = record_ids ls"
proof -
  have new: "individual new_GedcomImport = None" "graph new_GedcomImport = []"
    "pending new_GedcomImport = []"
    by (simp_all add: new_GedcomImport_def pending_def)
  have one: "individual s = None \<or> family s = None"
    using one_tokenize_lines [OF _ assms(1)] new by simp
  have one': "individual s' = None \<or> family s' = None"
    by (rule one_process_line [OF one assms(2)])
  have grows: "graph s' = graph s \<or> graph s' = graph s @ pending s"
    using process_line_cases [OF assms(2)] by (auto simp: same_entity_def)
  have ids: "map get_identifier (graph s @ pending s) = record_ids ls"
    using ids_tokenize_lines [OF assms(1)] new by simp
  from one one' pending_length [OF one] grows ids show ?thesis by simp
qed

lemma example_lines_fams:
  "tokenize_lines new_GedcomImport (take 8 example_lines) = Inr state_after_fams"
  by code_simp

lemma example_lines_fam:
  "process_line state_after_fams (example_lines ! 8) = Inr state_after_fam"
  by code_simp

theorem one_entity_in_progress_witness:
  "tokenize_lines new_GedcomImport (take 8 example_lines) = Inr state_after_fams \<and>
   process_line state_after_fams (example_lines ! 8) = Inr state_after_fam \<and>
   (individual state_after_fams = None \<or> family state_after_fams = None) \<and>
   (individual state_after_fam = None \<or> family state_after_fam = None) \<and>
   length (pending state_after_fams) \<le> 1 \<and>
   (graph state_after_fam = graph state_after_fams \<or>
    graph state_after_fam = graph state_after_fams @ pending state_after_fams) \<and>
   map get_identifier (graph state_after_fams @ pending state_after_fams) =
     record_ids (take 8 example_lines)"
  using one_entity_in_progress [OF example_lines_fams example_lines_fam]
    example_lines_fams example_lines_fam
  by simp

subsection \<open>The end of the stream\<close>

lemma tokenize_lines_append:
  "tokenize_lines s (xs @ ys) =
     (case tokenize_lines s xs of Inl e \<Rightarrow> Inl e | Inr s1 \<Rightarrow> tokenize_lines s1 ys)"
  by (induction xs arbitrary: s) (simp_all split: sum.splits)

lemma split_crlf_nonempty [simp]: "split_crlf xs \<noteq> []"
  by (induction xs rule: split_crlf.induct) (simp_all split: list.splits)

lemma split_char_nonempty [simp]: "split_char c xs \<noteq> []"
  by (induction xs) (simp_all split: list.splits)

lemma split_crlf_append:
  "split_crlf (xs @ CHR 0x0D # CHR 0x0A # ys) = split_crlf xs @ split_crlf ys"
proof (induction xs rule: split_crlf.induct)
  case 1
  then show ?case by simp
next
  case (2 a)
  then show ?case by (simp split: list.splits)
next
  case (3 a b xs)
  then show ?case by (simp split: list.splits)
qed

lemma parse_trailer: "parse_line ''0 TRLR'' = Inr (Some (0, ''TRLR''))"
  by code_simp

lemma split_trailer: "split_crlf ''0 TRLR'' = [''0 TRLR'']"
  by code_simp

lemma starts_trailer: "starts_entity ''TRLR'' = None"
  by code_simp

text \<open>
  C1, as the claim states it, fails: a record that no level-0 line follows is not in the
  returned graph.
\<close>

theorem last_record_not_finalized:
  "tokenize_from_stream new_GedcomImport
     (''0 @P1@ INDI'' @ [CHR 0x0D, CHR 0x0A] @ ''1 NAME Alice /A/'') = Inr [] \<and>
   record_ids (split_crlf (''0 @P1@ INDI'' @ [CHR 0x0D, CHR 0x0A] @ ''1 NAME Alice /A/'')) =
     [''P1'']"
  by code_simp

text \<open>
  C1, amended. An entity in progress enters the graph when a later level-0 line is
  processed, and nothing is finalized at the end of the stream: the returned graph is the
  parser's graph, which with the at most one entity still in progress holds the INDI and
  FAM records of the input in order; once a level-0 trailer line follows, the returned
  graph holds them all.
\<close>

theorem entity_finalized_by_next_level0:
  assumes "tokenize_lines new_GedcomImport (split_crlf stream) = Inr s"
  shows "tokenize_from_stream new_GedcomImport stream = Inr (graph s) \<and>
         map get_identifier (graph s @ pending s) = record_ids (split_crlf stream) \<and>
         length (pending s) \<le> 1 \<and>
         tokenize_from_stream new_GedcomImport (stream @ CHR 0x0D # CHR 0x0A # ''0 TRLR'') =
           Inr (graph s @ pending s)"
proof -
  have new: "individual new_GedcomImport = None" "graph new_GedcomImport = []"
    "pending new_GedcomImport = []"
    by (simp_all add: new_GedcomImport_def pending_def)
  have a: "tokenize_from_stream new_GedcomImport stream = Inr (graph s)"
    using assms by (simp add: tokenize_from_stream_def)
  have b: "map get_identifier (graph s @ pending s) = record_ids (split_crlf stream)"
    using ids_tokenize_lines [OF assms] new by simp
  have c: "length (pending s) \<le> 1"
    using one_tokenize_lines [OF _ assms] new pending_length by simp
  have "process_line s ''0 TRLR'' = Inr (handle_level0 s ''TRLR'')"
    by (simp add: process_line_def parse_trailer)
  then have "tokenize_lines new_GedcomImport (split_crlf stream @ [''0 TRLR'']) =
      Inr (handle_level0 s ''TRLR'')"
    using assms by (simp add: tokenize_lines_append)
  then have d: "tokenize_from_stream new_GedcomImport (stream @ CHR 0x0D # CHR 0x0A # ''0 TRLR'') =
           Inr (graph s @ pending s)"
    by (simp add: tokenize_from_stream_def split_crlf_append split_trailer graph_handle_level0)
  from a b c d show ?thesis by simp
qed

lemma lone_record_run:
  "tokenize_lines new_GedcomImport (split_crlf lone_record_stream) = Inr state_lone_record"
  by code_simp

theorem entity_finalized_by_next_level0_witness:
  "tokenize_lines new_GedcomImport (split_crlf lone_record_stream) = Inr state_lone_record \<and>
   tokenize_from_stream new_GedcomImport lone_record_stream = Inr (graph state_lone_record) \<and>
   map get_identifier (graph state_lone_record @ pending state_lone_record) =
     record_ids (split_crlf lone_record_stream) \<and>
   length (pending state_lone_record) \<le> 1 \<and>
   tokenize_from_stream new_GedcomImport
     (lone_record_stream @ CHR 0x0D # CHR 0x0A # ''0 TRLR'') =
     Inr (graph state_lone_record @ pending state_lone_record)"
  using entity_finalized_by_next_level0 [OF lone_record_run] lone_record_run by simp

subsection \<open>Notes\<close>

lemma hd_split_char: "c \<notin> set xs \<Longrightarrow> hd (split_char c (xs @ c # ys)) = xs"
  by (induction xs) (auto split: list.splits)

lemma tl_split_char: "c \<notin> set xs \<Longrightarrow> tl (split_char c (xs @ c # ys)) = split_char c ys"
  by (induction xs) (auto split: list.splits)

lemma join_char_Cons: "ts \<noteq> [] \<Longrightarrow> join_char c (t # ts) = t @ c # join_char c ts"
  by (cases ts) simp_all

lemma join_split_char: "join_char c (split_char c ys) = ys"
proof (induction ys)
  case Nil
  then show ?case by simp
next
  case (Cons y ys)
  obtain t ts where sp: "split_char c ys = t # ts"
    using split_char_nonempty [of c ys] by (cases "split_char c ys") simp_all
  show ?case
  proof (cases "y = c")
    case True
    with Cons show ?thesis by (simp add: join_char_Cons)
  next
    case False
    with Cons sp show ?thesis by (cases ts) simp_all
  qed
qed

lemma join_Cons_split_char: "join_char c (t # split_char c ys) = t @ c # ys"
  by (simp add: join_char_Cons join_split_char)

lemma strip_with_id:
  assumes "xs \<noteq> []" and "\<not> sp (hd xs)" and "\<not> sp (last xs)"
  shows "strip_with sp xs = xs"
proof -
  from assms have a: "dropWhile sp xs = xs"
    by (cases xs) simp_all
  from assms have "rev xs \<noteq> []" "\<not> sp (hd (rev xs))"
    by (simp_all add: hd_rev)
  then have "dropWhile sp (rev xs) = rev xs"
    by (cases "rev xs") simp_all
  with a show ?thesis by (simp add: strip_with_def)
qed

lemma py_int_1: "py_int ''1'' = Some 1"
  by code_simp

lemma parse_note_line:
  assumes "text \<noteq> []" and "\<not> bytes_space (last text)"
  shows "parse_line (''1 NOTE '' @ text) = Inr (Some (1, ''NOTE '' @ text))"
proof -
  have "bytes_strip (''1 NOTE '' @ text) = ''1 NOTE '' @ text"
    unfolding bytes_strip_def using assms
    by (intro strip_with_id) (simp_all add: bytes_space_def)
  moreover have "hd (split_char CHR '' '' (''1'' @ CHR '' '' # (''NOTE '' @ text))) = ''1''"
    by (rule hd_split_char) simp
  moreover have "tl (split_char CHR '' '' (''1'' @ CHR '' '' # (''NOTE '' @ text))) =
      split_char CHR '' '' (''NOTE '' @ text)"
    by (rule tl_split_char) simp
  ultimately show ?thesis
    by (simp add: parse_line_def Let_def startswith_def BOM_def py_int_1 join_Cons_split_char)
qed

lemma note_handle_level1:
  assumes "individual s = Some i"
  shows "current_note (handle_level1 s (''NOTE '' @ text)) = Some text"
proof -
  have "hd (split_char CHR '' '' (''NOTE'' @ CHR '' '' # text)) = ''NOTE''"
    by (rule hd_split_char) simp
  then have lead: "hd (split_char CHR '' '' (''NOTE '' @ text)) = ''NOTE''"
    by simp
  show ?thesis
    using assms
    by (simp add: handle_level1_def handle_individual_config_def Let_def lead current_note_def
        slice_from_def upd_individual_def reset_flags_def)
qed

lemma note_handle_level2: "current_note (handle_level2 s rest) = current_note s"
  by (simp add: handle_level2_def current_note_def upd_individual_def Let_def
      option.map_comp comp_def)

text \<open>
  C3, as the claim states it, fails: the continuation lines of a note leave the note as
  the level-1 line set it, and a second \<open>NOTE\<close> line replaces the note of the first.
\<close>

theorem note_continuation_not_appended:
  "tokenize_from_stream new_GedcomImport
     (crlf_lines [''0 @P2@ INDI'', ''1 NOTE This is a note with'', ''2 CONT 3'',
        ''2 CONT lines'', ''0 TRLR'']) =
     Inr [Indi (new_Individual\<lparr>indi_identifier := ''P2'',
            config := new_IndividualConfig\<lparr>config_note := ''This is a note with''\<rparr>\<rparr>)] \<and>
   tokenize_from_stream new_GedcomImport
     (crlf_lines [''0 @P2@ INDI'', ''1 NOTE first'', ''1 NOTE second'', ''0 TRLR'']) =
     Inr [Indi (new_Individual\<lparr>indi_identifier := ''P2'',
            config := new_IndividualConfig\<lparr>config_note := ''second''\<rparr>\<rparr>)]"
  by code_simp

text \<open>
  C3, amended. A level-1 \<open>NOTE\<close> line sets the note of the individual in progress to the
  text that follows \<open>NOTE\<close> on that line, replacing what the note held; a line of any level
  other than 0 and 1 leaves the note unchanged. The stream is split at CRLF only, so line
  feeds inside the text of the \<open>NOTE\<close> line stay in the note.
\<close>

theorem note_line_replaces_note:
  assumes "individual s = Some i" and "text \<noteq> []" and "\<not> bytes_space (last text)"
    and "parse_line l = Inr (Some (level, rest))" and "level \<noteq> 0" and "level \<noteq> 1"
  shows "(\<exists>t. process_line s (''1 NOTE '' @ text) = Inr t \<and> current_note t = Some text) \<and>
         (\<exists>t. process_line s l = Inr t \<and> current_note t = current_note s)"
proof -
  have "process_line s (''1 NOTE '' @ text) = Inr (handle_level1 s (''NOTE '' @ text))"
    using parse_note_line [OF assms(2,3)] by (simp add: process_line_def)
  with note_handle_level1 [OF assms(1)] have a:
    "\<exists>t. process_line s (''1 NOTE '' @ text) = Inr t \<and> current_note t = Some text"
    by simp
  have b: "\<exists>t. process_line s l = Inr t \<and> current_note t = current_note s"
    using assms(4-6) by (simp add: process_line_def note_handle_level2)
  from a b show ?thesis by simp
qed


lemma state_p2_individual:
  "individual state_p2 = Some (new_Individual\<lparr>indi_identifier := ''P2''\<rparr>)"
  by (simp add: state_p2_def)

lemma three_line_text_ends: "three_line_text \<noteq> [] \<and> \<not> bytes_space (last three_line_text)"
  by code_simp

lemma parse_cont_line: "parse_line ''2 CONT 3'' = Inr (Some (2, ''CONT 3''))"
  by code_simp

lemma three_line_text_feeds: "length (filter (\<lambda>c. c = CHR 0x0A) three_line_text) = 2"
  by code_simp

theorem note_line_replaces_note_witness:
  "individual state_p2 = Some (new_Individual\<lparr>indi_identifier := ''P2''\<rparr>) \<and>
   three_line_text \<noteq> [] \<and> \<not> bytes_space (last three_line_text) \<and>
   parse_line ''2 CONT 3'' = Inr (Some (2, ''CONT 3'')) \<and>
   (\<exists>t. process_line state_p2 (''1 NOTE '' @ three_line_text) = Inr t \<and>
        current_note t = Some three_line_text) \<and>
   (\<exists>t. process_line state_p2 ''2 CONT 3'' = Inr t \<and> current_note t = current_note state_p2) \<and>
   length (filter (\<lambda>c. c = CHR 0x0A) three_line_text) = 2"
proof -
  have ends: "three_line_text \<noteq> []" "\<not> bytes_space (last three_line_text)"
    using three_line_text_ends by simp_all
  have "(\<exists>t. process_line state_p2 (''1 NOTE '' @ three_line_text) = Inr t \<and>
        current_note t = Some three_line_text) \<and>
   (\<exists>t. process_line state_p2 ''2 CONT 3'' = Inr t \<and> current_note t = current_note state_p2)"
    by (rule note_line_replaces_note [OF state_p2_individual ends parse_cont_line]) simp_all
  with state_p2_individual ends parse_cont_line three_line_text_feeds show ?thesis
    by blast
qed

section \<open>Looking up an identifier\<close>

lemma filter_positions:
  "map ((!) g) (filter (\<lambda>r. P (g ! r)) [0..<length g]) = filter P g"
proof -
  have "filter P (map ((!) g) [0..<length g]) =
      map ((!) g) (filter (P \<circ> (!) g) [0..<length g])"
    by (rule filter_map)
  then show ?thesis by (simp add: map_nth comp_def)
qed

lemma length_filter_positions:
  "length (filter (\<lambda>r. P (g ! r)) [0..<length g]) = length (filter P g)"
  using arg_cong [OF filter_positions [of g P], of length] by simp

lemma single_position:
  assumes "filter (\<lambda>r. P (g ! r)) [0..<length g] = [r]"
  shows "r < length g \<and> P (g ! r) \<and> (\<forall>k<length g. P (g ! k) \<longrightarrow> k = r)"
proof -
  have mem: "\<And>k. k \<in> set (filter (\<lambda>r. P (g ! r)) [0..<length g]) \<longleftrightarrow> k < length g \<and> P (g ! k)"
    by auto
  from assms have "\<And>k. k \<in> set (filter (\<lambda>r. P (g ! r)) [0..<length g]) \<longleftrightarrow> k = r"
    by simp
  with mem show ?thesis by metis
qed

text \<open>
  C8. \<open>graph_find\<close> yields no reference, without error, for the empty identifier; for a
  non-empty identifier it fails its assertion unless exactly one node of the graph has
  that identifier, and then it returns that node.
\<close>

theorem graph_find_cases:
  "(identifier = [] \<longrightarrow> graph_find g identifier = Inr None) \<and>
   (identifier \<noteq> [] \<and> length (filter (\<lambda>n. get_identifier n = identifier) g) \<noteq> 1 \<longrightarrow>
      graph_find g identifier = Inl AssertionError) \<and>
   (identifier \<noteq> [] \<and> length (filter (\<lambda>n. get_identifier n = identifier) g) = 1 \<longrightarrow>
      (\<exists>r. graph_find g identifier = Inr (Some r) \<and> r < length g \<and>
           get_identifier (g ! r) = identifier \<and>
           (\<forall>k<length g. get_identifier (g ! k) = identifier \<longrightarrow> k = r)))"
proof -
  let ?P = "\<lambda>n. get_identifier n = identifier"
  let ?res = "filter (\<lambda>r. ?P (g ! r)) [0..<length g]"
  have len: "length ?res = length (filter ?P g)"
    by (rule length_filter_positions)
  have a: "identifier = [] \<longrightarrow> graph_find g identifier = Inr None"
    by (simp add: graph_find_def)
  have b: "identifier \<noteq> [] \<and> length (filter ?P g) \<noteq> 1 \<longrightarrow>
      graph_find g identifier = Inl AssertionError"
    using len by (simp add: graph_find_def Let_def)
  have c: "\<exists>r. graph_find g identifier = Inr (Some r) \<and> r < length g \<and>
           get_identifier (g ! r) = identifier \<and>
           (\<forall>k<length g. get_identifier (g ! k) = identifier \<longrightarrow> k = r)"
    if ne: "identifier \<noteq> []" and one: "length (filter ?P g) = 1"
  proof -
    from one len have "length ?res = 1" by simp
    then obtain r where r: "?res = [r]"
      by (cases ?res) simp_all
    from ne r have "graph_find g identifier = Inr (Some r)"
      by (simp add: graph_find_def Let_def)
    with single_position [of ?P g r, OF r] show ?thesis by simp
  qed
  from a b c show ?thesis by blast
qed

lemma family_graph_counts:
  "length (filter (\<lambda>n. get_identifier n = ''P9'') family_graph) = 0"
  "length (filter (\<lambda>n. get_identifier n = ''P1'') (family_graph @ family_graph)) = 2"
  "length (filter (\<lambda>n. get_identifier n = ''F1'') family_graph) = 1"
  by code_simp+

theorem graph_find_cases_witness:
  "graph_find family_graph [] = Inr None \<and>
   length (filter (\<lambda>n. get_identifier n = ''P9'') family_graph) = 0 \<and>
   graph_find family_graph ''P9'' = Inl AssertionError \<and>
   length (filter (\<lambda>n. get_identifier n = ''P1'') (family_graph @ family_graph)) = 2 \<and>
   graph_find (family_graph @ family_graph) ''P1'' = Inl AssertionError \<and>
   length (filter (\<lambda>n. get_identifier n = ''F1'') family_graph) = 1 \<and>
   (\<exists>r. graph_find family_graph ''F1'' = Inr (Some r) \<and> r < length family_graph \<and>
        get_identifier (family_graph ! r) = ''F1'' \<and>
        (\<forall>k<length family_graph. get_identifier (family_graph ! k) = ''F1'' \<longrightarrow> k = r))"
  using graph_find_cases [of "[]" family_graph]
    graph_find_cases [of "''P9''" family_graph]
    graph_find_cases [of "''P1''" "family_graph @ family_graph"]
    graph_find_cases [of "''F1''" family_graph]
    family_graph_counts
  by simp

section \<open>Colour and label of an individual\<close>

lemma of_char_ascii_upper:
  "(of_char (ascii_upper c) :: nat) =
     (if 97 \<le> (of_char c :: nat) \<and> (of_char c :: nat) \<le> 122 then of_char c - 32 else of_char c)"
proof (cases "97 \<le> (of_char c :: nat) \<and> (of_char c :: nat) \<le> 122")
  case True
  then have "(of_char c :: nat) - 32 < 256" by arith
  then have "((of_char c :: nat) - 32) mod 256 = of_char c - 32" by (rule mod_less)
  with True show ?thesis by (auto simp: ascii_upper_def Let_def)
next
  case False
  then show ?thesis by (auto simp: ascii_upper_def Let_def)
qed

lemma char_eq_nat: "c = d \<longleftrightarrow> (of_char c :: nat) = of_char d"
  by simp

lemma ascii_upper_M: "ascii_upper c = CHR ''M'' \<longleftrightarrow> c = CHR ''M'' \<or> c = CHR ''m''"
  unfolding char_eq_nat [of _ "CHR ''M''"] char_eq_nat [of _ "CHR ''m''"] of_char_ascii_upper
  by auto

lemma ascii_upper_F: "ascii_upper c = CHR ''F'' \<longleftrightarrow> c = CHR ''F'' \<or> c = CHR ''f''"
  unfolding char_eq_nat [of _ "CHR ''F''"] char_eq_nat [of _ "CHR ''f''"] of_char_ascii_upper
  by auto

lemma ascii_upper_U: "ascii_upper c = CHR ''U'' \<longleftrightarrow> c = CHR ''U'' \<or> c = CHR ''u''"
  unfolding char_eq_nat [of _ "CHR ''U''"] char_eq_nat [of _ "CHR ''u''"] of_char_ascii_upper
  by auto

lemma map_upper_single:
  "map ascii_upper s = [u] \<longleftrightarrow> (\<exists>c. s = [c] \<and> ascii_upper c = u)"
  by (cases s) auto

lemma upper_M: "map ascii_upper s = ''M'' \<longleftrightarrow> s = ''M'' \<or> s = ''m''"
  by (auto simp: map_upper_single ascii_upper_M)

lemma upper_F: "map ascii_upper s = ''F'' \<longleftrightarrow> s = ''F'' \<or> s = ''f''"
  by (auto simp: map_upper_single ascii_upper_F)

lemma upper_U: "map ascii_upper s = ''U'' \<longleftrightarrow> s = ''U'' \<or> s = ''u''"
  by (auto simp: map_upper_single ascii_upper_U)

lemma get_color_cases:
  "get_color self =
     (if sex self = [] \<or> sex self = ''U'' \<or> sex self = ''u'' then Inr ''black''
      else if sex self = ''M'' \<or> sex self = ''m'' then Inr ''blue''
      else if sex self = ''F'' \<or> sex self = ''f'' then Inr ''pink''
      else Inl KeyError)"
proof -
  let ?u = "map ascii_upper (sex self)"
  have lookup: "map_of [(''M'', ''blue''), (''F'', ''pink''), (''U'', ''black'')] ?u =
      (if ?u = ''M'' then Some ''blue'' else if ?u = ''F'' then Some ''pink''
       else if ?u = ''U'' then Some ''black'' else None)"
    by simp
  show ?thesis
    unfolding get_color_def Let_def
    by (cases "sex self = []") (auto simp: lookup upper_M upper_F upper_U ascii_upper_M ascii_upper_F ascii_upper_U
        simp del: map_of.simps)
qed

lemma placeholder_in_label:
  assumes "sex self = []"
    and "\<not> file_exists (path_join image_dir (forename self @ '' '' @ surname self) @ '' '' @
           config_birth (config self) @ ''.jpg'')"
  shows "\<exists>pre post. get_label file_exists install_dir self image_dir name_order =
           pre @ ''placeholder-u.png'' @ post"
proof -
  have "\<exists>d. get_abspath install_dir ''placeholder-u.png'' = d @ ''placeholder-u.png''"
    by (simp add: get_abspath_def path_join_def startswith_def)
  then obtain d where d: "get_abspath install_dir ''placeholder-u.png'' = d @ ''placeholder-u.png''"
    by blast
  let ?pre = "''<table border='' @ [CHR 0x22] @ ''0'' @ [CHR 0x22] @ '' cellborder='' @
      [CHR 0x22] @ ''0'' @ [CHR 0x22] @ ''><tr><td>'' @ ''<img src='' @ [CHR 0x22] @ d"
  let ?names = "if name_order = ''big''
      then surname self @ ''<br/>'' @ forename self @ ''<br/>''
      else forename self @ ''<br/>'' @ surname self @ ''<br/>''"
  let ?post = "[CHR 0x22] @ ''/>'' @ ''</td></tr><tr><td>'' @ ?names @
      config_birth (config self) @ ''-'' @ config_death (config self) @ ''</td></tr></table>''"
  have "get_label file_exists install_dir self image_dir name_order =
      ?pre @ ''placeholder-u.png'' @ ?post"
    using assms by (simp add: get_label_def Let_def d)
  then show ?thesis by blast
qed


text \<open>
  C5, as the claim states it, fails: \<open>get_color\<close> fails on a sex other than M, F and U.
\<close>

theorem get_color_fails_on_other_sex:
  "get_color (new_Individual\<lparr>sex := ''X''\<rparr>) = Inl KeyError"
  by code_simp

text \<open>
  C5, amended. \<open>get_color\<close> returns blue for the sex M or m, pink for F or f, black for
  U, u or the unset (empty) sex, and fails with a key error on every other value. An
  individual with unset sex whose image file does not exist has a label that contains
  \<open>placeholder-u.png\<close>.
\<close>

theorem colour_and_placeholder:
  "get_color self =
     (if sex self = [] \<or> sex self = ''U'' \<or> sex self = ''u'' then Inr ''black''
      else if sex self = ''M'' \<or> sex self = ''m'' then Inr ''blue''
      else if sex self = ''F'' \<or> sex self = ''f'' then Inr ''pink''
      else Inl KeyError) \<and>
   (sex self = [] \<and>
    \<not> file_exists (path_join image_dir (forename self @ '' '' @ surname self) @ '' '' @
          config_birth (config self) @ ''.jpg'') \<longrightarrow>
    (\<exists>pre post. get_label file_exists install_dir self image_dir name_order =
       pre @ ''placeholder-u.png'' @ post))"
  using get_color_cases [of self]
    placeholder_in_label [of self file_exists image_dir install_dir name_order]
  by blast

theorem colour_and_placeholder_witness:
  "sex nosex = [] \<and>
   get_color nosex = Inr ''black'' \<and>
   (\<exists>pre post. get_label (\<lambda>path. False) ''/opt/ged2dot'' nosex ''tests/images'' ''little'' =
      pre @ ''placeholder-u.png'' @ post)"
proof -
  have unset: "sex nosex = []"
    by (simp add: nosex_def new_Individual_def)
  with colour_and_placeholder [of nosex "\<lambda>path. False" "''tests/images''" "''/opt/ged2dot''"
      "''little''"]
  show ?thesis by simp
qed

section \<open>The edges of the output\<close>

lemma load_family_stream: "load new_GedcomImport family_stream = Inr family_graph"
  by code_simp











section \<open>Resolving a second time\<close>

lemma graph_find_cong:
  assumes "map get_identifier g = map get_identifier g'"
  shows "graph_find g x = graph_find g' x"
proof -
  from assms have len: "length g = length g'"
    by (rule map_eq_imp_length_eq)
  have "get_identifier (g ! r) = get_identifier (g' ! r)" if "r < length g" for r
    using that assms len by (metis nth_map)
  then have "filter (\<lambda>r. get_identifier (g ! r) = x) [0..<length g] =
      filter (\<lambda>r. get_identifier (g' ! r) = x) [0..<length g]"
    by (intro filter_cong) simp_all
  with len show ?thesis by (simp add: graph_find_def)
qed

lemma resolve_ids_cong:
  assumes "map get_identifier g = map get_identifier g'"
  shows "resolve_ids g xs acc = resolve_ids g' xs acc"
  by (induction xs arbitrary: acc)
    (simp_all add: graph_find_cong [OF assms] split: sum.splits option.splits)

lemma resolve_cong:
  assumes "map get_identifier g = map get_identifier g'"
  shows "resolve g n = resolve g' n"
  by (cases n)
    (simp_all add: resolve_individual_def resolve_family_def graph_find_cong [OF assms]
      resolve_ids_cong [OF assms] split: sum.splits)

lemma resolve_ids_append:
  "resolve_ids g xs acc = Inr l \<Longrightarrow>
   \<exists>rs. l = acc @ rs \<and> (\<forall>acc'. resolve_ids g xs acc' = Inr (acc' @ rs))"
proof (induction xs arbitrary: acc)
  case Nil
  then show ?case by simp
next
  case (Cons x xs)
  from Cons.prems obtain r where r: "graph_find g x = Inr (Some r)"
    and rest: "resolve_ids g xs (acc @ [r]) = Inr l"
    by (auto split: sum.splits option.splits)
  from Cons.IH [OF rest] obtain rs where l: "l = (acc @ [r]) @ rs"
    and all: "\<And>acc'. resolve_ids g xs acc' = Inr (acc' @ rs)"
    by blast
  have "l = acc @ (r # rs)" using l by simp
  moreover have "resolve_ids g (x # xs) acc' = Inr (acc' @ (r # rs))" for acc'
    using r all [of "acc' @ [r]"] by simp
  ultimately show ?case by blast
qed

lemma resolve_twice:
  assumes "resolve g n = Inr n1"
  shows "\<exists>n2. resolve g n1 = Inr n2 \<and> single_refs n2 = single_refs n1 \<and>
           list_refs n2 = list_refs n1 @ drop (length (list_refs n)) (list_refs n1) \<and>
           get_identifier n1 = get_identifier n"
proof (cases n)
  case (Indi i)
  from assms Indi obtain c l where c: "graph_find g (famc_id i) = Inr c"
    and l: "resolve_ids g (fams_ids i) (fams_list i) = Inr l"
    and n1: "n1 = Indi (i\<lparr>famc := c, fams_list := l\<rparr>)"
    by (auto simp: resolve_individual_def split: sum.splits)
  from resolve_ids_append [OF l] obtain rs where rs: "l = fams_list i @ rs"
    and all: "\<And>acc'. resolve_ids g (fams_ids i) acc' = Inr (acc' @ rs)"
    by blast
  have "resolve g n1 = Inr (Indi (i\<lparr>famc := c, fams_list := l @ rs\<rparr>))"
    using c all [of l] n1 by (simp add: resolve_individual_def)
  with Indi n1 rs show ?thesis by simp
next
  case (Fam f)
  from assms Fam obtain w h l where w: "graph_find g (wife_id f) = Inr w"
    and h: "graph_find g (husb_id f) = Inr h"
    and l: "resolve_ids g (child_ids f) (child_list f) = Inr l"
    and n1: "n1 = Fam (f\<lparr>wife := w, husb := h, child_list := l\<rparr>)"
    by (auto simp: resolve_family_def split: sum.splits)
  from resolve_ids_append [OF l] obtain rs where rs: "l = child_list f @ rs"
    and all: "\<And>acc'. resolve_ids g (child_ids f) acc' = Inr (acc' @ rs)"
    by blast
  have "resolve g n1 = Inr (Fam (f\<lparr>wife := w, husb := h, child_list := l @ rs\<rparr>))"
    using w h all [of l] n1 by (simp add: resolve_family_def)
  with Fam n1 rs show ?thesis by simp
qed

lemma resolve_identifier: "resolve g n = Inr n1 \<Longrightarrow> get_identifier n1 = get_identifier n"
  using resolve_twice by blast

lemma identifiers_update:
  "k < length g \<Longrightarrow> get_identifier n = get_identifier (g ! k) \<Longrightarrow>
   map get_identifier (g[k := n]) = map get_identifier g"
  by (simp add: map_update list_update_same_conv)


lemma resolve_nodes_char:
  assumes "resolve_nodes g ks = Inr g1" and "distinct ks" and "\<forall>k \<in> set ks. k < length g"
  shows "length g1 = length g \<and> map get_identifier g1 = map get_identifier g \<and>
         (\<forall>k \<in> set ks. resolve g (g ! k) = Inr (g1 ! k)) \<and>
         (\<forall>k. k \<notin> set ks \<longrightarrow> g1 ! k = g ! k)"
  using assms
proof (induction ks arbitrary: g)
  case Nil
  then show ?case by simp
next
  case (Cons k ks)
  from Cons.prems(1) obtain n where n: "resolve g (g ! k) = Inr n"
    and rest: "resolve_nodes (g[k := n]) ks = Inr g1"
    by (auto split: sum.splits)
  let ?g = "g[k := n]"
  from Cons.prems have k: "k < length g" and notin: "k \<notin> set ks" and dist: "distinct ks"
    and bound: "\<forall>j \<in> set ks. j < length ?g"
    by simp_all
  have ids: "map get_identifier ?g = map get_identifier g"
    using k resolve_identifier [OF n] by (rule identifiers_update)
  from Cons.IH [OF rest dist bound]
  have len: "length g1 = length ?g" and ids1: "map get_identifier g1 = map get_identifier ?g"
    and res: "\<forall>j \<in> set ks. resolve ?g (?g ! j) = Inr (g1 ! j)"
    and same: "\<forall>j. j \<notin> set ks \<longrightarrow> g1 ! j = ?g ! j"
    by simp_all
  have a: "resolve g (g ! j) = Inr (g1 ! j)" if "j \<in> set (k # ks)" for j
  proof (cases "j = k")
    case True
    with same notin k n show ?thesis by simp
  next
    case False
    with that have j: "j \<in> set ks" by simp
    with res have "resolve ?g (?g ! j) = Inr (g1 ! j)" by simp
    with False show ?thesis by (simp add: resolve_cong [OF ids])
  qed
  have b: "g1 ! j = g ! j" if "j \<notin> set (k # ks)" for j
    using that same by simp
  from len ids ids1 a b show ?case by simp
qed

lemma resolve_nodes_total:
  assumes "\<forall>k \<in> set ks. \<exists>n. resolve g (g ! k) = Inr n" and "distinct ks"
    and "\<forall>k \<in> set ks. k < length g"
  shows "\<exists>g1. resolve_nodes g ks = Inr g1"
  using assms
proof (induction ks arbitrary: g)
  case Nil
  then show ?case by simp
next
  case (Cons k ks)
  from Cons.prems(1) obtain n where n: "resolve g (g ! k) = Inr n"
    by auto
  let ?g = "g[k := n]"
  from Cons.prems have k: "k < length g" and notin: "k \<notin> set ks" and dist: "distinct ks"
    and bound: "\<forall>j \<in> set ks. j < length ?g"
    by simp_all
  have ids: "map get_identifier ?g = map get_identifier g"
    using k resolve_identifier [OF n] by (rule identifiers_update)
  have "\<exists>m. resolve ?g (?g ! j) = Inr m" if "j \<in> set ks" for j
  proof -
    from that notin have "j \<noteq> k" by auto
    with that Cons.prems(1) show ?thesis by (simp add: resolve_cong [OF ids])
  qed
  then have "\<forall>j \<in> set ks. \<exists>m. resolve ?g (?g ! j) = Inr m" by simp
  from Cons.IH [OF this dist bound] n show ?case by simp
qed

lemma resolve_all_char:
  assumes "resolve_all g = Inr g1"
  shows "length g1 = length g \<and> map get_identifier g1 = map get_identifier g \<and>
         (\<forall>k<length g. resolve g (g ! k) = Inr (g1 ! k))"
  using resolve_nodes_char [of g "[0..<length g]" g1] assms
  by (simp add: resolve_all_def)

text \<open>
  C2, as the claim states it, fails: a second resolve of the family F1 appends its
  children to \<open>child_list\<close> again.
\<close>

theorem resolve_twice_duplicates:
  "load new_GedcomImport family_stream = Inr family_graph \<and>
   list_refs (family_graph ! 4) = [2, 3] \<and>
   map_sum id (\<lambda>g2. list_refs (g2 ! 4)) (resolve_all family_graph) = Inr [2, 3, 2, 3]"
  by code_simp

text \<open>
  C2, amended. For every graph on which resolution succeeds, resolving every entity a
  second time succeeds too and leaves the single-valued references (famc; wife, husb) as
  they were; each list-valued field (fams_list; child_list) is extended by the
  references that the first resolution appended, which it then holds twice.
\<close>

theorem resolve_again_appends:
  assumes "resolve_all g = Inr g1"
  shows "\<exists>g2. resolve_all g1 = Inr g2 \<and> length g2 = length g1 \<and>
           (\<forall>k<length g1.
              single_refs (g2 ! k) = single_refs (g1 ! k) \<and>
              list_refs (g2 ! k) =
                list_refs (g1 ! k) @ drop (length (list_refs (g ! k))) (list_refs (g1 ! k)))"
proof -
  from resolve_all_char [OF assms]
  have len: "length g1 = length g" and ids: "map get_identifier g1 = map get_identifier g"
    and first: "\<And>k. k < length g \<Longrightarrow> resolve g (g ! k) = Inr (g1 ! k)"
    by simp_all
  have second: "\<exists>n2. resolve g1 (g1 ! k) = Inr n2 \<and> single_refs n2 = single_refs (g1 ! k) \<and>
      list_refs n2 = list_refs (g1 ! k) @ drop (length (list_refs (g ! k))) (list_refs (g1 ! k))"
    if "k < length g" for k
    using resolve_twice [OF first [OF that]] by (auto simp: resolve_cong [OF ids])
  then have "\<exists>n. resolve g1 (g1 ! k) = Inr n" if "k < length g" for k
    using that by blast
  then have "\<forall>k \<in> set [0..<length g1]. \<exists>n. resolve g1 (g1 ! k) = Inr n"
    using len by simp
  from resolve_nodes_total [OF this] obtain g2 where g2: "resolve_all g1 = Inr g2"
    by (auto simp: resolve_all_def)
  from resolve_all_char [OF g2]
  have len2: "length g2 = length g1"
    and third: "\<And>k. k < length g1 \<Longrightarrow> resolve g1 (g1 ! k) = Inr (g2 ! k)"
    by simp_all
  have "single_refs (g2 ! k) = single_refs (g1 ! k) \<and>
      list_refs (g2 ! k) =
        list_refs (g1 ! k) @ drop (length (list_refs (g ! k))) (list_refs (g1 ! k))"
    if "k < length g1" for k
    using second [of k] third [OF that] that len by auto
  with g2 len2 show ?thesis by auto
qed


lemma family_graph_resolved_twice:
  "map_sum id (\<lambda>g2. list_refs (g2 ! 4)) (resolve_all family_graph) = Inr [2, 3, 2, 3]"
  by code_simp

theorem resolve_again_appends_witness:
  "\<exists>g0 g2. tokenize_from_stream new_GedcomImport family_stream = Inr g0 \<and>
      resolve_all g0 = Inr family_graph \<and> resolve_all family_graph = Inr g2 \<and>
      single_refs (g2 ! 4) = single_refs (family_graph ! 4) \<and>
      list_refs (g2 ! 4) =
        list_refs (family_graph ! 4) @
        drop (length (list_refs (g0 ! 4))) (list_refs (family_graph ! 4)) \<and>
      list_refs (g2 ! 4) = [2, 3, 2, 3]"
proof -
  from load_family_stream obtain g0
    where tok: "tokenize_from_stream new_GedcomImport family_stream = Inr g0"
      and res: "resolve_all g0 = Inr family_graph"
    by (auto simp: load_def split: sum.splits)
  from resolve_again_appends [OF res] obtain g2
    where g2: "resolve_all family_graph = Inr g2"
      and all: "\<And>k. k < length family_graph \<Longrightarrow>
        single_refs (g2 ! k) = single_refs (family_graph ! k) \<and>
        list_refs (g2 ! k) =
          list_refs (family_graph ! k) @
          drop (length (list_refs (g0 ! k))) (list_refs (family_graph ! k))"
    by auto
  have "4 < length family_graph"
    by (simp add: family_graph_def)
  from all [OF this] have four:
    "single_refs (g2 ! 4) = single_refs (family_graph ! 4)"
    "list_refs (g2 ! 4) =
       list_refs (family_graph ! 4) @
       drop (length (list_refs (g0 ! 4))) (list_refs (family_graph ! 4))"
    by simp_all
  from family_graph_resolved_twice g2 have "list_refs (g2 ! 4) = [2, 3, 2, 3]"
    by simp
  with tok res g2 four show ?thesis
    by (intro exI [of _ g0] exI [of _ g2]) simp
qed

section \<open>The traversal\<close>

lemma fresh_props:
  "distinct (fresh ns v) \<and> set (fresh ns v) = set ns - set v"
proof (induction ns arbitrary: v)
  case Nil
  then show ?case by simp
next
  case (Cons x ns)
  show ?case
  proof (cases "x \<in> set v")
    case True
    with Cons [of v] show ?thesis by auto
  next
    case False
    with Cons [of "v @ [x]"] show ?thesis by auto
  qed
qed

lemma length_put_depth [simp]: "length (put_depth g r d) = length g"
  by (simp add: put_depth_def)

lemma get_identifier_set_depth [simp]: "get_identifier (set_depth d n) = get_identifier n"
  by (cases n) simp_all

lemma get_depth_set_depth [simp]: "get_depth (set_depth d n) = d"
  by (cases n) simp_all

lemma identifiers_put_depth [simp]:
  "map get_identifier (put_depth g r d) = map get_identifier g"
  by (simp add: put_depth_def map_update list_update_same_conv)

lemma depth_of_put_depth:
  "depth_of (put_depth g r d) x = (if x = r \<and> r < length g then d else depth_of g x)"
  by (simp add: put_depth_def depth_of_def)

lemma visit_neighbours_char:
  assumes "visit_neighbours node ns (g, v, q) = (g', v', q')"
  shows "v' = v @ fresh ns v \<and> q' = q @ fresh ns v \<and> length g' = length g \<and>
         all_refs g' = all_refs g \<and> map get_identifier g' = map get_identifier g \<and>
         (\<forall>x. x \<notin> set (fresh ns v) \<longrightarrow> depth_of g' x = depth_of g x) \<and>
         (node \<in> set v \<longrightarrow>
            (\<forall>x \<in> set (fresh ns v). x < length g \<longrightarrow> depth_of g' x = depth_of g node + 1))"
  using assms
proof (induction ns arbitrary: g v q)
  case Nil
  then show ?case by simp
next
  case (Cons x ns)
  show ?case
  proof (cases "x \<in> set v")
    case True
    with Cons.prems have "visit_neighbours node ns (g, v, q) = (g', v', q')" by simp
    from Cons.IH [OF this] True show ?thesis by simp
  next
    case False
    let ?g = "put_depth g x (depth_of g node + 1)"
    from False Cons.prems have "visit_neighbours node ns (?g, v @ [x], q @ [x]) = (g', v', q')"
      by simp
    from Cons.IH [OF this]
    have a: "v' = (v @ [x]) @ fresh ns (v @ [x])" "q' = (q @ [x]) @ fresh ns (v @ [x])"
      "length g' = length ?g" "all_refs g' = all_refs ?g"
      "map get_identifier g' = map get_identifier ?g"
      and same: "\<And>y. y \<notin> set (fresh ns (v @ [x])) \<Longrightarrow> depth_of g' y = depth_of ?g y"
      and new: "node \<in> set (v @ [x]) \<Longrightarrow>
        (\<forall>y \<in> set (fresh ns (v @ [x])). y < length ?g \<longrightarrow> depth_of g' y = depth_of ?g node + 1)"
      by simp_all
    have xn: "x \<notin> set (fresh ns (v @ [x]))"
      using fresh_props [of ns "v @ [x]"] by simp
    have fr: "fresh (x # ns) v = x # fresh ns (v @ [x])"
      using False by simp
    have same': "depth_of g' y = depth_of g y" if "y \<notin> set (fresh (x # ns) v)" for y
      using that same [of y] fr by (simp add: depth_of_put_depth)
    have new': "depth_of g' y = depth_of g node + 1"
      if "node \<in> set v" "y \<in> set (fresh (x # ns) v)" "y < length g" for y
    proof (cases "y = x")
      case True
      with same [OF xn] that show ?thesis by (simp add: depth_of_put_depth)
    next
      case False
      from that(1) \<open>x \<notin> set v\<close> have "node \<noteq> x" by auto
      then have "depth_of ?g node = depth_of g node" by (simp add: depth_of_put_depth)
      with new that False fr show ?thesis by simp
    qed
    from a fr same' new' show ?thesis by (simp add: all_refs_put_depth)
  qed
qed

lemma bfs_loop_distinct:
  "distinct (ret @ q) \<Longrightarrow> set (ret @ q) \<subseteq> set v \<Longrightarrow> set (ret @ q) \<subseteq> S \<union> all_refs g \<Longrightarrow>
   bfs_loop fd g v q ret = (res, g') \<Longrightarrow>
   distinct res \<and> set res \<subseteq> S \<union> all_refs g \<and> map get_identifier g' = map get_identifier g"
proof (induction fd g v q ret rule: bfs_loop.induct)
  case (1 family_depth g visited ret)
  then show ?case by simp
next
  case (2 family_depth g visited node queue ret)
  show ?case
  proof (cases "depth_of g node > family_depth * 2 + 1")
    case True
    with "2.prems" show ?thesis by auto
  next
    case False
    obtain g1 v1 q1 where vis:
      "visit_neighbours node (neighbours_of g node) (g, visited, queue) = (g1, v1, q1)"
      by (cases "visit_neighbours node (neighbours_of g node) (g, visited, queue)") auto
    let ?new = "fresh (neighbours_of g node) visited"
    from visit_neighbours_char [OF vis]
    have v1: "v1 = visited @ ?new" and q1: "q1 = queue @ ?new"
      and refs: "all_refs g1 = all_refs g" and ids: "map get_identifier g1 = map get_identifier g"
      by simp_all
    from fresh_props [of "neighbours_of g node" visited]
    have dn: "distinct ?new" and sn: "set ?new = set (neighbours_of g node) - set visited"
      by simp_all
    from False vis "2.prems"(4) have loop: "bfs_loop family_depth g1 v1 q1 (ret @ [node]) = (res, g')"
      by simp
    have d: "distinct ((ret @ [node]) @ q1)"
      using "2.prems"(1,2) dn sn q1 by auto
    have s1: "set ((ret @ [node]) @ q1) \<subseteq> set v1"
      using "2.prems"(2) v1 q1 by auto
    have s2: "set ((ret @ [node]) @ q1) \<subseteq> S \<union> all_refs g1"
      using "2.prems"(3) q1 sn refs neighbours_of_all_refs [of g node] by auto
    from "2.IH" [OF False vis [symmetric] refl d s1 s2 loop] refs ids
    show ?thesis by simp
  qed
qed


lemma graph_find_Some:
  assumes "graph_find g x = Inr (Some r)"
  shows "found_in g r"
proof -
  let ?res = "filter (\<lambda>r. get_identifier (g ! r) = x) [0..<length g]"
  from assms have "x \<noteq> []" and "length ?res = 1" and "r = hd ?res"
    by (auto simp: graph_find_def Let_def split: if_splits)
  then have "?res = [r]"
    by (cases ?res) simp_all
  from single_position [of "\<lambda>n. get_identifier n = x" g r, OF this]
  show ?thesis by (simp add: found_in_def)
qed

lemma found_in_cong:
  assumes "map get_identifier g1 = map get_identifier g" and "found_in g r"
  shows "found_in g1 r"
proof -
  from assms(1) have len: "length g1 = length g"
    by (rule map_eq_imp_length_eq)
  have "get_identifier (g1 ! k) = get_identifier (g ! k)" if "k < length g" for k
    using that assms(1) len by (metis nth_map)
  with assms(2) len show ?thesis by (simp add: found_in_def)
qed

lemma resolve_ids_found:
  "resolve_ids g xs acc = Inr l \<Longrightarrow> set l \<subseteq> set acc \<union> {r. found_in g r}"
proof (induction xs arbitrary: acc)
  case Nil
  then show ?case by simp
next
  case (Cons x xs)
  from Cons.prems obtain r where r: "graph_find g x = Inr (Some r)"
    and rest: "resolve_ids g xs (acc @ [r]) = Inr l"
    by (auto split: sum.splits option.splits)
  from Cons.IH [OF rest] graph_find_Some [OF r] show ?case by auto
qed

lemma graph_find_found: "graph_find g x = Inr c \<Longrightarrow> c = None \<or> (\<exists>r. c = Some r \<and> found_in g r)"
  using graph_find_Some [of g x] by (cases c) simp_all

lemma resolve_unlinked:
  assumes "resolve g n = Inr n1" and "unlinked n"
  shows "set (get_neighbours n1) \<subseteq> {r. found_in g r} \<and> get_depth n1 = 0"
proof (cases n)
  case (Indi i)
  from assms Indi obtain c l where c: "graph_find g (famc_id i) = Inr c"
    and l: "resolve_ids g (fams_ids i) (fams_list i) = Inr l"
    and n1: "n1 = Indi (i\<lparr>famc := c, fams_list := l\<rparr>)"
    by (auto simp: resolve_individual_def split: sum.splits)
  from assms(2) Indi have "fams_list i = []" "indi_depth i = 0"
    by (simp_all add: unlinked_def)
  with resolve_ids_found [OF l] graph_find_found [OF c] n1 show ?thesis by auto
next
  case (Fam f)
  from assms Fam obtain w h l where w: "graph_find g (wife_id f) = Inr w"
    and h: "graph_find g (husb_id f) = Inr h"
    and l: "resolve_ids g (child_ids f) (child_list f) = Inr l"
    and n1: "n1 = Fam (f\<lparr>wife := w, husb := h, child_list := l\<rparr>)"
    by (auto simp: resolve_family_def split: sum.splits)
  from assms(2) Fam have "child_list f = []" "fam_depth f = 0"
    by (simp_all add: unlinked_def)
  with resolve_ids_found [OF l] graph_find_found [OF w] graph_find_found [OF h] n1
  show ?thesis by auto
qed

lemma resolve_all_found:
  assumes "resolve_all g0 = Inr g" and "\<forall>n \<in> set g0. unlinked n"
  shows "(\<forall>r \<in> all_refs g. found_in g r) \<and> (\<forall>n \<in> set g. get_depth n = 0)"
proof -
  from resolve_all_char [OF assms(1)]
  have len: "length g = length g0" and ids: "map get_identifier g = map get_identifier g0"
    and res: "\<And>k. k < length g0 \<Longrightarrow> resolve g0 (g0 ! k) = Inr (g ! k)"
    by simp_all
  have node: "set (get_neighbours n) \<subseteq> {r. found_in g r} \<and> get_depth n = 0" if "n \<in> set g" for n
  proof -
    from that obtain k where k: "k < length g" and n: "n = g ! k"
      by (auto simp: in_set_conv_nth)
    from k len assms(2) have "unlinked (g0 ! k)" by simp
    from resolve_unlinked [OF res this] k len n found_in_cong [OF ids] show ?thesis by auto
  qed
  then show ?thesis by (auto simp: all_refs_def)
qed

lemma unlinked_new [simp]:
  "unlinked (Indi (new_Individual\<lparr>indi_identifier := x\<rparr>))"
  "unlinked (Fam (new_Family\<lparr>fam_identifier := x\<rparr>))"
  by (simp_all add: unlinked_def new_Individual_def new_Family_def)

lemma unlinked_state_iff:
  "unlinked_state s \<longleftrightarrow>
     (\<forall>n \<in> set (graph s). unlinked n) \<and>
     (\<forall>i. individual s = Some i \<longrightarrow> unlinked (Indi i)) \<and>
     (\<forall>f. family s = Some f \<longrightarrow> unlinked (Fam f))"
  by (cases "individual s"; cases "family s") (auto simp: unlinked_state_def pending_def)

lemma unlinked_Indi:
  "unlinked (Indi i) \<longleftrightarrow> famc i = None \<and> fams_list i = [] \<and> indi_depth i = 0"
  by (auto simp: unlinked_def split: option.splits)

lemma unlinked_Fam:
  "unlinked (Fam f) \<longleftrightarrow> wife f = None \<and> husb f = None \<and> child_list f = [] \<and> fam_depth f = 0"
  by (auto simp: unlinked_def split: option.splits)

lemma unlinked_upd_individual:
  "(\<And>i. unlinked (Indi (f i)) = unlinked (Indi i)) \<Longrightarrow>
   unlinked_state (upd_individual f s) = unlinked_state s"
  by (auto simp: unlinked_state_iff)

lemma unlinked_upd_family:
  "(\<And>i. unlinked (Fam (f i)) = unlinked (Fam i)) \<Longrightarrow>
   unlinked_state (upd_family f s) = unlinked_state s"
  by (auto simp: unlinked_state_iff)

lemma unlinked_reset: "unlinked_state (reset_flags s) = unlinked_state s"
  by (simp add: unlinked_state_iff)

lemma unlinked_handle_level0:
  assumes "unlinked_state s"
  shows "unlinked_state (handle_level0 s l)"
proof -
  let ?t = "flush_family (flush_individual s)"
  have t: "individual ?t = None" "family ?t = None"
    by (simp_all add: flush_family_def flush_individual_def split: option.splits)
  from assms have g: "\<forall>n \<in> set (graph ?t). unlinked n"
    by (simp add: unlinked_state_def)
  show ?thesis
    unfolding handle_level0_def Let_def using t g
    by (simp add: unlinked_state_iff del: graph_flushed)
qed

lemma unlinked_handle_individual_config:
  "unlinked_state (handle_individual_config s l) = unlinked_state s"
  by (simp add: handle_individual_config_def Let_def unlinked_upd_individual unlinked_Indi)
    (simp add: unlinked_state_iff)

lemma unlinked_handle_level1: "unlinked_state (handle_level1 s l) = unlinked_state s"
  by (simp add: handle_level1_def Let_def unlinked_upd_individual unlinked_upd_family
      unlinked_reset unlinked_handle_individual_config unlinked_Indi unlinked_Fam)

lemma unlinked_handle_level2: "unlinked_state (handle_level2 s l) = unlinked_state s"
  by (simp add: handle_level2_def Let_def unlinked_upd_individual unlinked_Indi)

lemma unlinked_process_line:
  "unlinked_state s \<Longrightarrow> process_line s l = Inr s' \<Longrightarrow> unlinked_state s'"
  by (auto simp: process_line_def unlinked_handle_level0 unlinked_handle_level1
      unlinked_handle_level2 split: sum.splits option.splits if_splits)

lemma unlinked_tokenize_lines:
  "unlinked_state s \<Longrightarrow> tokenize_lines s ls = Inr s' \<Longrightarrow> unlinked_state s'"
proof (induction ls arbitrary: s)
  case Nil
  then show ?case by simp
next
  case (Cons l ls)
  from Cons.prems(2) obtain s1 where s1: "process_line s l = Inr s1"
    and rest: "tokenize_lines s1 ls = Inr s'"
    by (auto split: sum.splits)
  from unlinked_process_line [OF Cons.prems(1) s1] Cons.IH rest show ?case by simp
qed

lemma load_found:
  assumes "load new_GedcomImport stream = Inr g"
  shows "(\<forall>r \<in> all_refs g. found_in g r) \<and> (\<forall>n \<in> set g. get_depth n = 0)"
proof -
  from assms obtain s where tok: "tokenize_lines new_GedcomImport (split_crlf stream) = Inr s"
    and res: "resolve_all (graph s) = Inr g"
    by (auto simp: load_def tokenize_from_stream_def split: sum.splits)
  have "unlinked_state new_GedcomImport"
    by (simp add: unlinked_state_def new_GedcomImport_def pending_def)
  from unlinked_tokenize_lines [OF this tok] have "\<forall>n \<in> set (graph s). unlinked n"
    by (simp add: unlinked_state_iff)
  with res show ?thesis by (rule resolve_all_found)
qed


lemma identifier_of_cong:
  assumes "map get_identifier g' = map get_identifier g"
  shows "identifier_of g' r = identifier_of g r"
proof -
  from assms have len: "length g' = length g"
    by (rule map_eq_imp_length_eq)
  show ?thesis
  proof (cases "r < length g")
    case True
    with assms len have "get_identifier (g' ! r) = get_identifier (g ! r)"
      by (metis nth_map)
    with True len show ?thesis by (simp add: identifier_of_def)
  next
    case False
    with len show ?thesis by (simp add: identifier_of_def)
  qed
qed

lemma found_in_inj:
  assumes "found_in g j" and "i < length g" and "identifier_of g i = identifier_of g j"
  shows "i = j"
  using assms by (simp add: found_in_def identifier_of_def)

text \<open>
  C7. For every graph that \<open>load\<close> returns and every root in it, the sequence that
  \<open>bfs\<close> returns holds no node twice and no identifier twice.
\<close>

theorem bfs_no_duplicates:
  assumes "load new_GedcomImport stream = Inr g" and "root < length g"
    and "bfs g root cfg = Inr (ret, g')"
  shows "distinct ret \<and> distinct (map (identifier_of g') ret)"
proof -
  from assms(3) obtain fd where loop: "bfs_loop fd g [root] [root] [] = (ret, g')"
    by (auto simp: bfs_def split: option.splits)
  have "distinct ret \<and> set ret \<subseteq> {root} \<union> all_refs g \<and>
      map get_identifier g' = map get_identifier g"
    by (rule bfs_loop_distinct [OF _ _ _ loop]) simp_all
  then have dist: "distinct ret" and sub: "set ret \<subseteq> {root} \<union> all_refs g"
    and ids: "map get_identifier g' = map get_identifier g"
    by simp_all
  from load_found [OF assms(1)] have found: "\<And>r. r \<in> all_refs g \<Longrightarrow> found_in g r"
    by simp
  have valid: "i < length g" if "i \<in> set ret" for i
    using that sub assms(2) found [of i] by (auto simp: found_in_def)
  have "i = j" if "i \<in> set ret" "j \<in> set ret" "identifier_of g i = identifier_of g j" for i j
  proof (cases "j \<in> all_refs g")
    case True
    from found_in_inj [OF found [OF True] valid [OF that(1)] that(3)] show ?thesis .
  next
    case False
    with that(2) sub have j: "j = root" by auto
    show ?thesis
    proof (cases "i \<in> all_refs g")
      case True
      from found_in_inj [OF found [OF True] valid [OF that(2)] that(3) [symmetric]]
      show ?thesis by simp
    next
      case False
      with that(1) sub j show ?thesis by auto
    qed
  qed
  then have "inj_on (identifier_of g) (set ret)"
    by (auto intro: inj_onI)
  with dist have "distinct (map (identifier_of g) ret)"
    by (simp add: distinct_map)
  moreover have "identifier_of g' = identifier_of g"
    by (rule ext) (rule identifier_of_cong [OF ids])
  ultimately show ?thesis using dist by simp
qed

lemma family_graph_bfs_depth4:
  "map_sum id fst (bfs family_graph 5 [''familydepth'' \<mapsto> ''4'']) = Inr [5, 2, 3, 4, 0, 1]"
  by code_simp

theorem bfs_no_duplicates_witness:
  "load new_GedcomImport family_stream = Inr family_graph \<and> 5 < length family_graph \<and>
   (\<exists>g'. bfs family_graph 5 [''familydepth'' \<mapsto> ''4''] = Inr ([5, 2, 3, 4, 0, 1], g') \<and>
         distinct [5, 2, 3, 4, 0, 1 :: nat] \<and>
         distinct (map (identifier_of g') [5, 2, 3, 4, 0, 1]))"
proof -
  have lt: "5 < length family_graph"
    by (simp add: family_graph_def)
  from family_graph_bfs_depth4 obtain g'
    where b: "bfs family_graph 5 [''familydepth'' \<mapsto> ''4''] = Inr ([5, 2, 3, 4, 0, 1], g')"
    by (cases "bfs family_graph 5 [''familydepth'' \<mapsto> ''4'']") auto
  from bfs_no_duplicates [OF load_family_stream lt b] load_family_stream lt b
  show ?thesis by (intro conjI exI [of _ g']) simp_all
qed

lemma bfs_loop_second_level:
  assumes "\<forall>x \<in> set A. depth_of g x = 1" and "\<forall>x \<in> set B. depth_of g x = 2"
    and "set (A @ B) \<subseteq> set v" and "all_refs g \<subseteq> {..<length g}"
  shows "\<exists>g'. bfs_loop 0 g v (A @ B) ret = (ret @ A, g')"
  using assms
proof (induction A arbitrary: g v B ret)
  case Nil
  then show ?case by (cases B) simp_all
next
  case (Cons x A)
  obtain g1 v1 q1 where vis:
    "visit_neighbours x (neighbours_of g x) (g, v, A @ B) = (g1, v1, q1)"
    by (cases "visit_neighbours x (neighbours_of g x) (g, v, A @ B)") auto
  let ?new = "fresh (neighbours_of g x) v"
  from visit_neighbours_char [OF vis]
  have v1: "v1 = v @ ?new" and q1: "q1 = (A @ B) @ ?new" and len: "length g1 = length g"
    and refs: "all_refs g1 = all_refs g"
    and same: "\<And>y. y \<notin> set ?new \<Longrightarrow> depth_of g1 y = depth_of g y"
    and new: "x \<in> set v \<Longrightarrow> (\<forall>y \<in> set ?new. y < length g \<longrightarrow> depth_of g1 y = depth_of g x + 1)"
    by simp_all
  from fresh_props [of "neighbours_of g x" v]
  have sn: "set ?new = set (neighbours_of g x) - set v" by simp
  from Cons.prems have x: "depth_of g x = 1" and xv: "x \<in> set v" by simp_all
  have newvalid: "y < length g" if "y \<in> set ?new" for y
    using that sn neighbours_of_all_refs [of g x] Cons.prems(4) by auto
  have a: "\<forall>y \<in> set A. depth_of g1 y = 1"
    using Cons.prems(1,3) same sn by auto
  have b: "\<forall>y \<in> set (B @ ?new). depth_of g1 y = 2"
  proof
    fix y assume y: "y \<in> set (B @ ?new)"
    show "depth_of g1 y = 2"
    proof (cases "y \<in> set ?new")
      case True
      with new [OF xv] newvalid x show ?thesis by simp
    next
      case False
      with y Cons.prems(2) same show ?thesis by simp
    qed
  qed
  have c: "set (A @ (B @ ?new)) \<subseteq> set v1"
    using Cons.prems(3) v1 by auto
  have d: "all_refs g1 \<subseteq> {..<length g1}"
    using Cons.prems(4) refs len by simp
  from Cons.IH [OF a b c d, of "ret @ [x]"] obtain g' where
    "bfs_loop 0 g1 v1 (A @ B @ ?new) (ret @ [x]) = ((ret @ [x]) @ A, g')"
    by blast
  with vis x q1 show ?case by simp
qed

lemma py_int_0: "py_int ''0'' = Some 0"
  by code_simp

lemma bfs_depth_zero_any:
  assumes "load new_GedcomImport stream = Inr g" and "root < length g"
    and "cfg ''familydepth'' = Some ''0''"
  shows "\<exists>g'. bfs g root cfg = Inr (root # fresh (get_neighbours (g ! root)) [root], g')"
proof -
  from load_found [OF assms(1)] have found: "\<And>r. r \<in> all_refs g \<Longrightarrow> found_in g r"
    and depth0: "\<And>n. n \<in> set g \<Longrightarrow> get_depth n = 0"
    by simp_all
  have valid: "all_refs g \<subseteq> {..<length g}"
    using found by (auto simp: found_in_def)
  have d0: "depth_of g root = 0"
    using assms(2) depth0 [of "g ! root"] by (simp add: depth_of_def)
  let ?ns = "neighbours_of g root"
  let ?new = "fresh ?ns [root]"
  obtain g1 v1 q1 where vis: "visit_neighbours root ?ns (g, [root], []) = (g1, v1, q1)"
    by (cases "visit_neighbours root ?ns (g, [root], [])") auto
  from visit_neighbours_char [OF vis]
  have v1: "v1 = [root] @ ?new" and q1: "q1 = ?new" and len: "length g1 = length g"
    and refs: "all_refs g1 = all_refs g"
    and new: "\<forall>y \<in> set ?new. y < length g \<longrightarrow> depth_of g1 y = depth_of g root + 1"
    by simp_all
  from fresh_props [of ?ns "[root]"] have sn: "set ?new = set ?ns - {root}" by simp
  have a: "\<forall>y \<in> set ?new. depth_of g1 y = 1"
    using new sn neighbours_of_all_refs [of g root] valid d0 by auto
  have "\<exists>g'. bfs_loop 0 g1 v1 (?new @ []) [root] = ([root] @ ?new, g')"
    by (rule bfs_loop_second_level) (use a v1 valid refs len in auto)
  then obtain g' where "bfs_loop 0 g1 v1 ?new [root] = (root # ?new, g')"
    by auto
  with vis d0 q1 have "bfs_loop 0 g [root] [root] [] = (root # ?new, g')"
    by simp
  with assms(2,3) show ?thesis
    by (simp add: bfs_def py_int_0 neighbours_of_def)
qed


text \<open>
  C6, as the claim states it, fails: from the family F1, which has a wife, a husband and
  two children, the traversal with family depth 0 returns five nodes, the children among
  them.
\<close>

theorem children_in_depth_zero_traversal:
  "(case load new_GedcomImport family_stream of
      Inl e \<Rightarrow> False
    | Inr g \<Rightarrow>
        graph_find g ''F1'' = Inr (Some 4) \<and>
        (case bfs g 4 [''familydepth'' \<mapsto> ''0''] of
           Inl e \<Rightarrow> False
         | Inr (ret, g') \<Rightarrow>
             ret = [4, 0, 1, 2, 3] \<and>
             map (identifier_of g') ret = [''F1'', ''P1'', ''P2'', ''P3'', ''P4'']))"
  by code_simp

text \<open>
  C6, amended. In a graph that \<open>load\<close> returns, \<open>bfs\<close> with family depth 0 from a root
  Family with a resolved wife and a resolved husband returns the root followed by its
  neighbours other than itself, in order and each once: the wife, the husband and the
  children of the root family. No other node is returned: no grandparent family and no
  family of a child. The result has three nodes when the root family has no children.
\<close>

theorem bfs_depth_zero:
  assumes "load new_GedcomImport stream = Inr g" and "root < length g"
    and "g ! root = Fam fam" and "wife fam = Some w" and "husb fam = Some h"
    and "cfg ''familydepth'' = Some ''0''"
  shows "(\<exists>g'. bfs g root cfg = Inr (root # fresh (w # h # child_list fam) [root], g')) \<and>
         distinct (fresh (w # h # child_list fam) [root]) \<and>
         set (fresh (w # h # child_list fam) [root]) = ({w, h} \<union> set (child_list fam)) - {root}"
proof -
  have "get_neighbours (g ! root) = w # h # child_list fam"
    using assms(3-5) by simp
  with bfs_depth_zero_any [where cfg = cfg, OF assms(1,2,6)]
  have "\<exists>g'. bfs g root cfg = Inr (root # fresh (w # h # child_list fam) [root], g')"
    by simp
  with fresh_props [of "w # h # child_list fam" "[root]"] show ?thesis
    by auto
qed

lemma family_graph_f1: "family_graph ! 4 = Fam family_f1"
  by code_simp

lemma family_f1_fresh: "fresh (0 # 1 # child_list family_f1) [4] = [0, 1, 2, 3]"
  by code_simp

theorem bfs_depth_zero_witness:
  "load new_GedcomImport family_stream = Inr family_graph \<and> 4 < length family_graph \<and>
   family_graph ! 4 = Fam family_f1 \<and> wife family_f1 = Some 0 \<and> husb family_f1 = Some 1 \<and>
   (\<exists>g'. bfs family_graph 4 [''familydepth'' \<mapsto> ''0''] = Inr ([4, 0, 1, 2, 3], g')) \<and>
   fresh (0 # 1 # child_list family_f1) [4] = [0, 1, 2, 3]"
proof -
  have lt: "4 < length family_graph"
    by (simp add: family_graph_def)
  have w: "wife family_f1 = Some 0" and h: "husb family_f1 = Some 1"
    by (simp_all add: family_f1_def)
  have cfg: "[''familydepth'' \<mapsto> ''0''] ''familydepth'' = Some ''0''"
    by simp
  from bfs_depth_zero [where cfg = "[''familydepth'' \<mapsto> ''0'']",
      OF load_family_stream lt family_graph_f1 w h cfg]
  have "\<exists>g'. bfs family_graph 4 [''familydepth'' \<mapsto> ''0''] =
      Inr (4 # fresh (0 # 1 # child_list family_f1) [4], g')"
    by (rule conjunct1)
  then have ex: "\<exists>g'. bfs family_graph 4 [''familydepth'' \<mapsto> ''0''] = Inr ([4, 0, 1, 2, 3], g')"
    by (simp only: family_f1_fresh)
  from load_family_stream lt family_graph_f1 w h ex family_f1_fresh show ?thesis
    by (intro conjI)
qed

section \<open>The edges of the subgraph\<close>

lemma is_family_set_depth [simp]: "is_family (set_depth d n) = is_family n"
  by (cases n) simp_all
















text \<open>
  The root has to be a Family, as the comment in \<open>bfs\<close> says it always is: from the
  individual P1 with family depth 0 the traversal keeps P1 and F1 only, and the edges of
  F1 name P2, P3 and P4.
\<close>

lemma individual_root_edges:
  "map_sum id (\<lambda>(subgraph, g'). (subgraph, store_edges g' subgraph))
     (bfs family_graph 0 [''familydepth'' \<mapsto> ''0'']) =
   Inr ([0, 4],
        [edge ''P1'' ''F1'', edge ''P2'' ''F1'', edge ''F1'' ''P3'', edge ''F1'' ''P4''])"
  by code_simp

end
